theory Spec2Isabelle
  imports Complex_Main "HOL-Library.Word" "HOL-Library.Monad_Syntax"
begin

section \<open>Keys and file descriptors\<close>

text \<open>
  User keys are compared by a pluggable comparator (\<open>icmp_.user_comparator()\<close>); here
  the user keys are the elements of a linear order \<open>'k\<close> and \<open>ucmp_Compare\<close> is the
  three-way comparison of that order.
\<close>

definition ucmp_Compare :: "'k::linorder \<Rightarrow> 'k \<Rightarrow> int" where
  "ucmp_Compare a b = (if a < b then - 1 else if a = b then 0 else 1)"

text \<open>
  Modelled from the spec: the class \<open>InternalKey\<close> and \<open>InternalKeyComparator::Compare\<close>
  (dbformat.h) are not part of the sources at hand. An internal key is
  \<open>(user_key, sequence, kind)\<close>; the order is ascending in the user key and, among equal
  user keys, descending in \<open>(sequence, kind)\<close>, so that newer records sort first.
  The encoded form of a key (\<open>Encode()\<close>) is identified with the key itself.
\<close>

datatype 'k InternalKey = InternalKey (user_key: 'k) (sequence: nat) (kind: nat)

definition icmp_Compare :: "'k::linorder InternalKey \<Rightarrow> 'k InternalKey \<Rightarrow> int" where
  "icmp_Compare a b =
     (let r = ucmp_Compare (user_key a) (user_key b) in
      if r \<noteq> 0 then r
      else if sequence a > sequence b \<or> (sequence a = sequence b \<and> kind a > kind b) then - 1
      else if sequence a < sequence b \<or> (sequence a = sequence b \<and> kind a < kind b) then 1
      else 0)"

text \<open>
  \<open>struct FileMetaData\<close> (its declaration is in version_edit.h, not in the sources at
  hand; the field types are those of the spec: \<open>number\<close>, \<open>file_size\<close>, \<open>seq_off\<close> are
  u64, \<open>allowed_seeks\<close> is i32). Versions hold pointers to descriptors; the model
  holds the descriptors by value, so the reference count of a descriptor is the one seen
  through the version that holds it.
\<close>

record 'k FileMetaData =
  refs :: int
  allowed_seeks :: "32 word"
  number :: "64 word"
  file_size :: "64 word"
  seq_off :: "64 word"
  smallest :: "'k InternalKey"
  largest :: "'k InternalKey"

section \<open>FindFile\<close>

text \<open>
  The binary search of \<open>FindFile\<close>: \<open>left\<close>, \<open>right\<close> and \<open>mid\<close> are \<open>uint32_t\<close>,
  the vector size is truncated to 32 bits on entry and the result is returned as \<open>int\<close>.
  The loop is not structurally recursive; not returning is the value \<open>None\<close>.
\<close>

partial_function (option) FindFile_loop ::
  "'k::linorder FileMetaData list \<Rightarrow> 'k InternalKey \<Rightarrow> 32 word \<Rightarrow> 32 word \<Rightarrow> 32 word option"
where
  "FindFile_loop files key left right =
     (if left < right then
        (let mid = (left + right) div 2 in
         if icmp_Compare (largest (files ! unat mid)) key < 0
         then FindFile_loop files key (mid + 1) right
         else FindFile_loop files key left mid)
      else Some right)"

definition FindFile :: "'k::linorder FileMetaData list \<Rightarrow> 'k InternalKey \<Rightarrow> int option" where
  "FindFile files key =
     map_option sint (FindFile_loop files key 0 (of_nat (length files)))"


section \<open>Status values, options and helpers\<close>

text \<open>
  Naming: a data member \<open>x_\<close> of a class becomes the record field \<open>p_x\<close>, with the prefix
  \<open>ve\<close> for VersionEdit, \<open>v\<close> for Version, \<open>b\<close> for Builder, \<open>vs\<close> for VersionSet and
  \<open>c\<close> for Compaction. A call that violates an \<open>assert\<close> of the code (or that
  would read a vector out of range) yields \<open>None\<close>: the debug build aborts there.
  A \<open>Status\<close> is an ordinary result value.
\<close>

datatype Status = OK | NotFound | Corruption string | NotSupported | InvalidArgument string
  | IOError string

definition ok :: "Status \<Rightarrow> bool" where
  "ok s \<longleftrightarrow> s = OK"

text \<open>
  The fields of \<open>DBOptions\<close> that the code reads (\<open>int\<close> and \<open>size_t\<close> members), with
  the compile-time constant \<open>config::kMaxMemCompactLevel\<close> and the name of the user
  comparator alongside.
\<close>

record Options =
  enable_sublevel :: bool
  enable_should_stop_before :: bool
  rotating_manifest :: bool
  level_factor :: "32 word"
  table_file_size :: "64 word"
  l0_compaction_trigger :: "32 word"
  l1_compaction_trigger :: "32 word"
  kMaxMemCompactLevel :: nat
  comparator_name :: string

definition assert :: "bool \<Rightarrow> unit option" where
  "assert b = (if b then Some () else None)"

fun foldM :: "('a \<Rightarrow> 's \<Rightarrow> 's option) \<Rightarrow> 'a list \<Rightarrow> 's \<Rightarrow> 's option" where
  "foldM f [] s = Some s"
| "foldM f (x # xs) s = (case f x s of None \<Rightarrow> None | Some s' \<Rightarrow> foldM f xs s')"

text \<open>\<open>std::vector::resize\<close> with a default element.\<close>

definition resize :: "nat \<Rightarrow> 'a \<Rightarrow> 'a list \<Rightarrow> 'a list" where
  "resize n d xs = take n xs @ replicate (n - length xs) d"

definition MaxGrandParentOverlapBytes :: "Options \<Rightarrow> 64 word" where
  "MaxGrandParentOverlapBytes options = scast (level_factor options) * table_file_size options"

definition ExpandedCompactionByteSizeLimit :: "Options \<Rightarrow> 64 word" where
  "ExpandedCompactionByteSizeLimit options =
     scast (2 * (level_factor options + 2) + 1) * table_file_size options"

text \<open>
  \<open>MaxBytesForLevel\<close> computes in \<open>double\<close>; the model computes in the reals (no
  rounding).
\<close>

definition MaxBytesForLevel :: "Options \<Rightarrow> nat \<Rightarrow> real" where
  "MaxBytesForLevel options level =
     real (unat (scast (l1_compaction_trigger options) * table_file_size options :: 64 word))
       * real_of_int (sint (level_factor options)) ^ (level - 1)"

definition MaxCompactionSizeForLevel :: "Options \<Rightarrow> nat \<Rightarrow> 64 word" where
  "MaxCompactionSizeForLevel options level =
     scast (level_factor options) * table_file_size options"

definition MaxFileSizeForLevel :: "Options \<Rightarrow> nat \<Rightarrow> 64 word" where
  "MaxFileSizeForLevel options level = table_file_size options"

text \<open>The sum is an \<open>int64_t\<close>; additions wrap.\<close>

definition TotalFileSize :: "'k FileMetaData list \<Rightarrow> 64 word" where
  "TotalFileSize fs = foldl (\<lambda>sum f. sum + file_size f) 0 fs"

section \<open>VersionEdit\<close>

text \<open>
  The class is declared in version_edit.h (not in the sources at hand); the record has the
  members that version_set.cc reads and writes. The two \<open>std::set\<close>s of
  \<open>(level, number)\<close> pairs are listed in their iteration order; an empty
  \<open>truncate_key_\<close> is \<open>None\<close>.
\<close>

record 'k VersionEdit =
  ve_comparator :: string
  ve_log_number :: "64 word"
  ve_prev_log_number :: "64 word"
  ve_next_file_number :: "64 word"
  ve_last_sequence :: "64 word"
  ve_has_comparator :: bool
  ve_has_log_number :: bool
  ve_has_prev_log_number :: bool
  ve_has_next_file_number :: bool
  ve_has_last_sequence :: bool
  ve_compact_pointers :: "(nat \<times> 'k InternalKey) list"
  ve_deleted_files :: "(nat \<times> 64 word) list"
  ve_new_files :: "(nat \<times> 'k FileMetaData) list"
  ve_updated_files :: "(nat \<times> 64 word) list"
  ve_truncate_key :: "'k InternalKey option"
  ve_max_level :: nat

definition VersionEdit_new :: "'k VersionEdit" where
  "VersionEdit_new =
     \<lparr>ve_comparator = [], ve_log_number = 0, ve_prev_log_number = 0, ve_next_file_number = 0,
      ve_last_sequence = 0, ve_has_comparator = False, ve_has_log_number = False,
      ve_has_prev_log_number = False, ve_has_next_file_number = False,
      ve_has_last_sequence = False, ve_compact_pointers = [], ve_deleted_files = [],
      ve_new_files = [], ve_updated_files = [], ve_truncate_key = None, ve_max_level = 0\<rparr>"

definition SetLogNumber :: "64 word \<Rightarrow> 'k VersionEdit \<Rightarrow> 'k VersionEdit" where
  "SetLogNumber num edit = edit\<lparr>ve_has_log_number := True, ve_log_number := num\<rparr>"

definition SetPrevLogNumber :: "64 word \<Rightarrow> 'k VersionEdit \<Rightarrow> 'k VersionEdit" where
  "SetPrevLogNumber num edit = edit\<lparr>ve_has_prev_log_number := True, ve_prev_log_number := num\<rparr>"

definition SetNextFile :: "64 word \<Rightarrow> 'k VersionEdit \<Rightarrow> 'k VersionEdit" where
  "SetNextFile num edit = edit\<lparr>ve_has_next_file_number := True, ve_next_file_number := num\<rparr>"

definition SetLastSequence :: "64 word \<Rightarrow> 'k VersionEdit \<Rightarrow> 'k VersionEdit" where
  "SetLastSequence num edit = edit\<lparr>ve_has_last_sequence := True, ve_last_sequence := num\<rparr>"

definition SetCompactPointer :: "nat \<Rightarrow> 'k InternalKey \<Rightarrow> 'k VersionEdit \<Rightarrow> 'k VersionEdit" where
  "SetCompactPointer level key edit =
     edit\<lparr>ve_compact_pointers := ve_compact_pointers edit @ [(level, key)]\<rparr>"

section \<open>Version\<close>

text \<open>
  The contents of a \<open>Version\<close>. The links \<open>next_\<close> and \<open>prev_\<close> of the version ring are
  kept in the VersionSet (as the list of the linked versions); \<open>SublevelPool\<close> is a
  vector of \<open>(first row, length)\<close> pairs. The compaction score is a \<open>double\<close> in the code
  and a real number here.
\<close>

record 'k Version =
  v_files :: "'k FileMetaData list list"
  v_refs :: int
  v_input_pool :: "(int \<times> int) list"
  v_output_pool :: "(int \<times> int) list"
  v_file_to_compact :: "'k FileMetaData option"
  v_file_to_compact_level :: int
  v_compaction_score :: real
  v_compaction_level :: int

definition Version_new :: "Options \<Rightarrow> 'k Version" where
  "Version_new options =
     \<lparr>v_files = replicate (if enable_sublevel options then 2
                            else kMaxMemCompactLevel options + 1) [],
      v_refs = 0,
      v_input_pool = (if enable_sublevel options then [(0, 1), (1, 1)] else []),
      v_output_pool = (if enable_sublevel options then [(0, 1), (2, 0)] else []),
      v_file_to_compact = None,
      v_file_to_compact_level = - 1,
      v_compaction_score = - 1,
      v_compaction_level = - 1\<rparr>"

subsection \<open>GetOverlappingInputs\<close>

text \<open>
  The loop of \<open>Version::GetOverlappingInputs\<close> over \<open>files_[level]\<close>. A null \<open>begin\<close>
  or \<open>end\<close> is \<open>None\<close> (the code tests the pointer before every use of \<open>user_begin\<close>
  and \<open>user_end\<close>). The four tests of the loop body are named; the loop returns the
  inputs together with the final bounds. At level 0 a file that extends a bound restarts
  the sweep; each restart lowers the number of files that still extend a bound, which is
  the termination argument.
\<close>

definition before_range :: "'k::linorder option \<Rightarrow> 'k FileMetaData \<Rightarrow> bool" where
  "before_range user_begin f =
     (case user_begin of None \<Rightarrow> False
      | Some b \<Rightarrow> ucmp_Compare (user_key (largest f)) b < 0)"

definition after_range :: "'k::linorder option \<Rightarrow> 'k FileMetaData \<Rightarrow> bool" where
  "after_range user_end f =
     (case user_end of None \<Rightarrow> False
      | Some e \<Rightarrow> ucmp_Compare (user_key (smallest f)) e > 0)"

definition extends_begin :: "'k::linorder option \<Rightarrow> 'k FileMetaData \<Rightarrow> bool" where
  "extends_begin user_begin f =
     (case user_begin of None \<Rightarrow> False
      | Some b \<Rightarrow> ucmp_Compare (user_key (smallest f)) b < 0)"

definition extends_end :: "'k::linorder option \<Rightarrow> 'k FileMetaData \<Rightarrow> bool" where
  "extends_end user_end f =
     (case user_end of None \<Rightarrow> False
      | Some e \<Rightarrow> ucmp_Compare (user_key (largest f)) e > 0)"

definition restarts_left :: "'k::linorder FileMetaData list \<Rightarrow> 'k option \<Rightarrow> 'k option \<Rightarrow> nat" where
  "restarts_left fs user_begin user_end =
     length (filter (extends_begin user_begin) fs) + length (filter (extends_end user_end) fs)"

lemma length_filter_strict:
  "x \<in> set xs \<Longrightarrow> Q x \<Longrightarrow> \<not> P x \<Longrightarrow> (\<And>y. P y \<Longrightarrow> Q y) \<Longrightarrow>
   length (filter P xs) < length (filter Q xs)"
proof (induction xs)
  case Nil
  then show ?case by simp
next
  case (Cons a xs)
  have le: "length (filter P xs) \<le> length (filter Q xs)"
    using Cons.prems(4) by (induction xs) auto
  show ?case
  proof (cases "x = a")
    case True
    then show ?thesis using Cons.prems le by simp
  next
    case False
    then have "length (filter P xs) < length (filter Q xs)"
      using Cons by simp
    then show ?thesis using Cons.prems(4) by auto
  qed
qed

lemma restart_begin_decreases:
  assumes "i < length fs" "extends_begin user_begin (fs ! i)"
  shows "restarts_left fs (Some (user_key (smallest (fs ! i)))) user_end
         < restarts_left fs user_begin user_end"
proof -
  obtain b where b: "user_begin = Some b" "user_key (smallest (fs ! i)) < b"
    using assms(2) by (auto simp: extends_begin_def ucmp_Compare_def split: option.splits if_splits)
  have "length (filter (extends_begin (Some (user_key (smallest (fs ! i))))) fs)
        < length (filter (extends_begin user_begin) fs)"
  proof (rule length_filter_strict [where x = "fs ! i"])
    show "fs ! i \<in> set fs" using assms(1) by simp
    show "extends_begin user_begin (fs ! i)" by (rule assms(2))
    show "\<not> extends_begin (Some (user_key (smallest (fs ! i)))) (fs ! i)"
      by (simp add: extends_begin_def ucmp_Compare_def)
    show "\<And>y. extends_begin (Some (user_key (smallest (fs ! i)))) y \<Longrightarrow> extends_begin user_begin y"
      using b by (auto simp: extends_begin_def ucmp_Compare_def split: if_splits)
  qed
  then show ?thesis by (simp add: restarts_left_def)
qed

lemma restart_end_decreases:
  assumes "i < length fs" "extends_end user_end (fs ! i)"
  shows "restarts_left fs user_begin (Some (user_key (largest (fs ! i))))
         < restarts_left fs user_begin user_end"
proof -
  obtain e where e: "user_end = Some e" "e < user_key (largest (fs ! i))"
    using assms(2) by (auto simp: extends_end_def ucmp_Compare_def split: option.splits if_splits)
  have "length (filter (extends_end (Some (user_key (largest (fs ! i))))) fs)
        < length (filter (extends_end user_end) fs)"
  proof (rule length_filter_strict [where x = "fs ! i"])
    show "fs ! i \<in> set fs" using assms(1) by simp
    show "extends_end user_end (fs ! i)" by (rule assms(2))
    show "\<not> extends_end (Some (user_key (largest (fs ! i)))) (fs ! i)"
      by (simp add: extends_end_def ucmp_Compare_def)
    show "\<And>y. extends_end (Some (user_key (largest (fs ! i)))) y \<Longrightarrow> extends_end user_end y"
      using e by (auto simp: extends_end_def ucmp_Compare_def split: if_splits)
  qed
  then show ?thesis by (simp add: restarts_left_def)
qed

function GetOverlappingInputs_loop ::
  "nat \<Rightarrow> 'k::linorder FileMetaData list \<Rightarrow> 'k option \<Rightarrow> 'k option \<Rightarrow> nat \<Rightarrow>
   'k FileMetaData list \<Rightarrow> 'k FileMetaData list \<times> 'k option \<times> 'k option"
where
  "GetOverlappingInputs_loop level fs user_begin user_end i inputs =
     (if i < length fs then
        (if before_range user_begin (fs ! i) then
           GetOverlappingInputs_loop level fs user_begin user_end (i + 1) inputs
         else if after_range user_end (fs ! i) then
           GetOverlappingInputs_loop level fs user_begin user_end (i + 1) inputs
         else if level = 0 \<and> extends_begin user_begin (fs ! i) then
           GetOverlappingInputs_loop level fs (Some (user_key (smallest (fs ! i)))) user_end 0 []
         else if level = 0 \<and> extends_end user_end (fs ! i) then
           GetOverlappingInputs_loop level fs user_begin (Some (user_key (largest (fs ! i)))) 0 []
         else GetOverlappingInputs_loop level fs user_begin user_end (i + 1) (inputs @ [fs ! i]))
      else (inputs, user_begin, user_end))"
  by pat_completeness auto
termination
  by (relation "measures [\<lambda>(level, fs, ub, ue, i, inputs). restarts_left fs ub ue,
                          \<lambda>(level, fs, ub, ue, i, inputs). length fs - i]")
     (auto simp: restart_begin_decreases restart_end_decreases)


definition GetOverlappingInputs ::
  "'k::linorder Version \<Rightarrow> nat \<Rightarrow> 'k InternalKey option \<Rightarrow> 'k InternalKey option \<Rightarrow>
   'k FileMetaData list option" where
  "GetOverlappingInputs v level begin end' = do {
     assert (level < length (v_files v));
     Some (fst (GetOverlappingInputs_loop level (v_files v ! level)
                  (map_option user_key begin) (map_option user_key end') 0 []))
   }"

text \<open>
  Vocabulary for the result of the sweep: a file overlaps a range when it is neither
  wholly before nor wholly after it, lies within it when it extends neither bound, and a
  range is closed for a level when every file overlapping it lies within it.
\<close>

definition overlaps_range :: "'k::linorder option \<Rightarrow> 'k option \<Rightarrow> 'k FileMetaData \<Rightarrow> bool" where
  "overlaps_range ub ue f \<longleftrightarrow> \<not> before_range ub f \<and> \<not> after_range ue f"

definition within_range :: "'k::linorder option \<Rightarrow> 'k option \<Rightarrow> 'k FileMetaData \<Rightarrow> bool" where
  "within_range ub ue f \<longleftrightarrow> \<not> extends_begin ub f \<and> \<not> extends_end ue f"

definition closed_range :: "'k::linorder FileMetaData list \<Rightarrow> 'k option \<Rightarrow> 'k option \<Rightarrow> bool" where
  "closed_range fs ub ue \<longleftrightarrow> (\<forall>f \<in> set fs. overlaps_range ub ue f \<longrightarrow> within_range ub ue f)"

text \<open>An absent begin is below every key, an absent end above every key.\<close>

definition begin_le :: "'k::linorder option \<Rightarrow> 'k option \<Rightarrow> bool" where
  "begin_le x y = (case x of None \<Rightarrow> True | Some a \<Rightarrow> (case y of None \<Rightarrow> False | Some b \<Rightarrow> a \<le> b))"

definition end_le :: "'k::linorder option \<Rightarrow> 'k option \<Rightarrow> bool" where
  "end_le x y = (case y of None \<Rightarrow> True | Some b \<Rightarrow> (case x of None \<Rightarrow> False | Some a \<Rightarrow> a \<le> b))"


section \<open>VersionSet::Builder\<close>

text \<open>
  \<open>BySmallestKey\<close> orders descriptors by smallest key, ties broken by file number;
  \<open>FileSet\<close> is a \<open>std::set\<close> under that order, kept here as its sorted list of
  elements. \<open>LevelState\<close> holds the two \<open>std::set<uint64_t>\<close> as sets.
\<close>

definition BySmallestKey :: "'k::linorder FileMetaData \<Rightarrow> 'k FileMetaData \<Rightarrow> bool" where
  "BySmallestKey f1 f2 =
     (let r = icmp_Compare (smallest f1) (smallest f2) in
      if r \<noteq> 0 then r < 0 else number f1 < number f2)"

fun FileSet_insert :: "'k::linorder FileMetaData \<Rightarrow> 'k FileMetaData list \<Rightarrow> 'k FileMetaData list"
where
  "FileSet_insert f [] = [f]"
| "FileSet_insert f (g # gs) =
     (if BySmallestKey f g then f # g # gs
      else if BySmallestKey g f then g # FileSet_insert f gs
      else g # gs)"

record 'k LevelState =
  deleted_files :: "64 word set"
  added_files :: "'k FileMetaData list"
  updated_files :: "64 word set"

definition LevelState_new :: "'k LevelState" where
  "LevelState_new = \<lparr>deleted_files = {}, added_files = [], updated_files = {}\<rparr>"

text \<open>
  The builder keeps the files of \<open>*base_\<close> (a version is not changed once it is built);
  the reference that the builder takes on the base version is taken and dropped by
  \<open>Builder_ctor\<close> and \<open>Builder_dtor\<close> below. An empty \<open>truncated_key_\<close> is \<open>None\<close>.
\<close>

record 'k Builder =
  b_base :: "'k FileMetaData list list"
  b_levels :: "'k LevelState list"
  b_truncated_key :: "'k InternalKey option"

definition Builder_new :: "'k FileMetaData list list \<Rightarrow> 'k Builder" where
  "Builder_new base_files =
     \<lparr>b_base = base_files,
      b_levels = replicate (length base_files) LevelState_new,
      b_truncated_key = None\<rparr>"

subsection \<open>Apply\<close>

text \<open>
  The descriptor that \<open>Apply\<close> creates for a new file: \<open>refs = 1\<close> and the seek budget
  \<open>file_size / 16384\<close>, assigned to the \<open>int\<close> member \<open>allowed_seeks\<close> (the 64-bit quotient
  is truncated to 32 bits), raised to 100 when it is below 100 as a signed number.
\<close>

definition Apply_new_file :: "'k FileMetaData \<Rightarrow> 'k FileMetaData" where
  "Apply_new_file f =
     (let seeks = (ucast (file_size f div 16384) :: 32 word) in
      f\<lparr>refs := 1, allowed_seeks := (if seeks <s 100 then 100 else seeks)\<rparr>)"

definition Apply_compact_pointer ::
  "'k VersionEdit \<Rightarrow> nat \<times> 'k InternalKey \<Rightarrow> 'k InternalKey option list \<Rightarrow>
   'k InternalKey option list option" where
  "Apply_compact_pointer edit p cp = (case p of (level, key) \<Rightarrow> do {
     assert (level \<le> ve_max_level edit);
     Some (cp[level := Some key])
   })"

definition Apply_deleted_file ::
  "'k VersionEdit \<Rightarrow> nat \<times> 64 word \<Rightarrow> 'k LevelState list \<Rightarrow> 'k LevelState list option" where
  "Apply_deleted_file edit p levels = (case p of (level, num) \<Rightarrow> do {
     assert (level < length levels);
     assert (level \<le> ve_max_level edit);
     Some (levels[level := (levels ! level)
             \<lparr>deleted_files := insert num (deleted_files (levels ! level))\<rparr>])
   })"

definition Apply_added_file ::
  "'k::linorder VersionEdit \<Rightarrow> nat \<times> 'k FileMetaData \<Rightarrow> 'k LevelState list \<Rightarrow>
   'k LevelState list option" where
  "Apply_added_file edit p levels = (case p of (level, nf) \<Rightarrow> do {
     assert (level < length levels);
     let f = Apply_new_file nf;
     assert (level \<le> ve_max_level edit);
     Some (levels[level := (levels ! level)
             \<lparr>deleted_files := deleted_files (levels ! level) - {number f},
              added_files := FileSet_insert f (added_files (levels ! level))\<rparr>])
   })"

definition Apply_updated_file ::
  "Options \<Rightarrow> nat \<times> 64 word \<Rightarrow> 'k LevelState list \<Rightarrow> 'k LevelState list option" where
  "Apply_updated_file options p levels = (case p of (level, num) \<Rightarrow> do {
     assert (enable_sublevel options);
     assert (level < length levels);
     Some (levels[level := (levels ! level)
             \<lparr>updated_files := insert num (updated_files (levels ! level))\<rparr>])
   })"

text \<open>
  \<open>Apply\<close> also writes \<open>vset_->compact_pointer_\<close>; the vector is passed in and returned
  with the builder.
\<close>

definition Builder_Apply ::
  "Options \<Rightarrow> 'k::linorder VersionEdit \<Rightarrow> 'k Builder \<times> 'k InternalKey option list \<Rightarrow>
   ('k Builder \<times> 'k InternalKey option list) option" where
  "Builder_Apply options edit st = (case st of (b, cp) \<Rightarrow> do {
     (levels1, cp1) \<leftarrow>
       (if \<not> enable_sublevel options then do {
          let cp' = (if length cp \<le> ve_max_level edit + 1
                     then resize (ve_max_level edit + 2) None cp else cp);
          let levels' = (if length (b_levels b) \<le> ve_max_level edit + 1
                         then resize (ve_max_level edit + 2) LevelState_new (b_levels b)
                         else b_levels b);
          cp'' \<leftarrow> foldM (Apply_compact_pointer edit) (ve_compact_pointers edit) cp';
          Some (levels', cp'')
        } else Some (b_levels b, cp));
     levels2 \<leftarrow> foldM (Apply_deleted_file edit) (ve_deleted_files edit) levels1;
     levels3 \<leftarrow> foldM (Apply_added_file edit) (ve_new_files edit) levels2;
     levels4 \<leftarrow> foldM (Apply_updated_file options) (ve_updated_files edit) levels3;
     Some (b\<lparr>b_levels := levels4, b_truncated_key := ve_truncate_key edit\<rparr>, cp1)
   })"

subsection \<open>SaveTo and MaybeAddFile\<close>

text \<open>
  \<open>MaybeAddFile\<close> on the vector \<open>v->files_[level]\<close>. Comparing with an empty
  \<open>truncated_key_\<close> fails an assertion of the comparator, hence \<open>None\<close>.
\<close>

definition MaybeAddFile ::
  "Options \<Rightarrow> 'k::linorder Builder \<Rightarrow> nat \<Rightarrow> 'k FileMetaData \<Rightarrow> 'k FileMetaData list \<Rightarrow>
   'k FileMetaData list option" where
  "MaybeAddFile options b level f fs =
     (if number f \<in> deleted_files (b_levels b ! level) then Some fs
      else if number f \<in> updated_files (b_levels b ! level) then do {
        assert (enable_sublevel options);
        tk \<leftarrow> b_truncated_key b;
        assert (icmp_Compare (smallest f) tk < 0);
        assert (icmp_Compare (largest f) tk \<ge> 0);
        Some (fs @ [f\<lparr>refs := 1, smallest := tk\<rparr>])
      } else do {
        assert (\<not> (level > 0 \<and> fs \<noteq> []) \<or>
                icmp_Compare (largest (last fs)) (smallest f) < 0);
        Some (fs @ [f\<lparr>refs := refs f + 1\<rparr>])
      })"

text \<open>
  The merge of the base files with the added files. \<open>std::upper_bound(base_iter,
  base_end, added, cmp)\<close> is the end of the run of base files that are not greater than
  the added file; on a range ordered by \<open>cmp\<close> that run is the longest prefix of such
  files.
\<close>

fun SaveTo_merge ::
  "Options \<Rightarrow> 'k::linorder Builder \<Rightarrow> nat \<Rightarrow> 'k FileMetaData list \<Rightarrow> 'k FileMetaData list \<Rightarrow>
   'k FileMetaData list \<Rightarrow> 'k FileMetaData list option" where
  "SaveTo_merge options b level base_rest [] out =
     foldM (MaybeAddFile options b level) base_rest out"
| "SaveTo_merge options b level base_rest (a # added) out =
     (case foldM (MaybeAddFile options b level)
             (takeWhile (\<lambda>x. \<not> BySmallestKey a x) base_rest) out of
        None \<Rightarrow> None
      | Some out1 \<Rightarrow>
          (case MaybeAddFile options b level a out1 of
             None \<Rightarrow> None
           | Some out2 \<Rightarrow>
               SaveTo_merge options b level
                 (dropWhile (\<lambda>x. \<not> BySmallestKey a x) base_rest) added out2))"

text \<open>The check of the debug build (\<open>#ifndef NDEBUG\<close>) at the end of each level.\<close>

fun no_overlap :: "'k::linorder FileMetaData list \<Rightarrow> bool" where
  "no_overlap [] = True"
| "no_overlap [f] = True"
| "no_overlap (f # g # fs) =
     (if icmp_Compare (largest f) (smallest g) \<ge> 0 then False else no_overlap (g # fs))"

definition SaveTo_level ::
  "Options \<Rightarrow> 'k::linorder Builder \<Rightarrow> nat \<Rightarrow> 'k FileMetaData list list \<Rightarrow>
   'k FileMetaData list list option" where
  "SaveTo_level options b level vfiles = do {
     out \<leftarrow> (if level < length (b_base b)
             then SaveTo_merge options b level (b_base b ! level)
                    (added_files (b_levels b ! level)) (vfiles ! level)
             else foldM (MaybeAddFile options b level)
                    (added_files (b_levels b ! level)) (vfiles ! level));
     assert (\<not> level > 0 \<or> no_overlap out);
     Some (vfiles[level := out])
   }"

definition Builder_SaveTo ::
  "Options \<Rightarrow> 'k::linorder Builder \<Rightarrow> 'k FileMetaData list list \<Rightarrow>
   'k FileMetaData list list option" where
  "Builder_SaveTo options b vfiles = do {
     let vf = (if length vfiles < length (b_levels b)
               then resize (length (b_levels b)) [] vfiles else vfiles);
     vf' \<leftarrow> foldM (SaveTo_level options b) [0..<length (b_levels b)] vf;
     assert (enable_sublevel options \<or> (vf' \<noteq> [] \<and> last vf' = []));
     Some vf'
   }"


text \<open>
  For the statement about the files that \<open>Apply\<close> adds: every file of an added set
  was in the same set before, or is a descriptor made by \<open>Apply_new_file\<close>.
\<close>

definition added_from ::
  "'k::linorder LevelState list \<Rightarrow> 'k LevelState list \<Rightarrow> bool" where
  "added_from ls0 ls \<longleftrightarrow>
     (\<forall>l < length ls. \<forall>f \<in> set (added_files (ls ! l)).
        (l < length ls0 \<and> f \<in> set (added_files (ls0 ! l))) \<or> (\<exists>g. f = Apply_new_file g))"


subsection \<open>Building versions from edits\<close>

text \<open>
  A version is built from a base version and edits by
  \<open>Version* v = new Version(vset); Builder builder(vset, base); builder.Apply(edit); ...;
  builder.SaveTo(v)\<close> (\<open>LogAndApply\<close> and \<open>ForeighApply\<close> apply one edit, \<open>Recover\<close> all edits
  of a MANIFEST). \<open>build_version\<close> is that sequence on the files of the base version;
  \<open>apply_rounds\<close> repeats it, each new version being the base of the next, and returns
  the versions built.
\<close>

definition build_version ::
  "Options \<Rightarrow> 'k::linorder FileMetaData list list \<Rightarrow> 'k InternalKey option list \<Rightarrow>
   'k VersionEdit list \<Rightarrow> ('k FileMetaData list list \<times> 'k InternalKey option list) option" where
  "build_version options base_files cp edits = do {
     (b, cp') \<leftarrow> foldM (Builder_Apply options) edits (Builder_new base_files, cp);
     vf \<leftarrow> Builder_SaveTo options b (v_files (Version_new options));
     Some (vf, cp')
   }"

fun apply_rounds ::
  "Options \<Rightarrow> 'k::linorder FileMetaData list list \<Rightarrow> 'k InternalKey option list \<Rightarrow>
   'k VersionEdit list list \<Rightarrow> 'k FileMetaData list list list option" where
  "apply_rounds options base_files cp [] = Some []"
| "apply_rounds options base_files cp (edits # rounds) =
     (case build_version options base_files cp edits of
        None \<Rightarrow> None
      | Some (vf, cp') \<Rightarrow>
          (case apply_rounds options vf cp' rounds of
             None \<Rightarrow> None
           | Some vfs \<Rightarrow> Some (vf # vfs)))"


text \<open>
  Vocabulary for the order of a level: \<open>le_smallest\<close> compares smallest keys,
  \<open>file_before f g\<close> says that \<open>f\<close> ends before \<open>g\<close> begins. \<open>merge_seq\<close> is the order in
  which \<open>SaveTo\<close> hands the base files and the added files of a level to
  \<open>MaybeAddFile\<close>; \<open>derived s out\<close> relates a file handed to \<open>MaybeAddFile\<close> to the
  descriptor it appends (the file itself, or its truncated clone).
\<close>

definition le_smallest :: "'k::linorder FileMetaData \<Rightarrow> 'k FileMetaData \<Rightarrow> bool" where
  "le_smallest f g \<longleftrightarrow> icmp_Compare (smallest f) (smallest g) \<le> 0"

definition file_before :: "'k::linorder FileMetaData \<Rightarrow> 'k FileMetaData \<Rightarrow> bool" where
  "file_before f g \<longleftrightarrow> icmp_Compare (largest f) (smallest g) < 0"

definition levels_ordered :: "'k::linorder FileMetaData list list \<Rightarrow> bool" where
  "levels_ordered fss \<longleftrightarrow>
     (\<forall>level. 1 \<le> level \<and> level < length fss \<longrightarrow>
        sorted_wrt le_smallest (fss ! level) \<and> sorted_wrt file_before (fss ! level))"

definition level_ordered :: "'k::linorder FileMetaData list \<Rightarrow> bool" where
  "level_ordered fs \<longleftrightarrow> sorted_wrt le_smallest fs \<and> sorted_wrt file_before fs"

definition added_sorted :: "'k::linorder LevelState list \<Rightarrow> bool" where
  "added_sorted ls \<longleftrightarrow> (\<forall>l<length ls. sorted_wrt le_smallest (added_files (ls ! l)))"

definition derived :: "'k::linorder FileMetaData \<Rightarrow> 'k FileMetaData \<Rightarrow> bool" where
  "derived s out \<longleftrightarrow>
     largest out = largest s \<and>
     (smallest out = smallest s \<or>
      (icmp_Compare (smallest s) (smallest out) \<le> 0 \<and>
       icmp_Compare (smallest out) (largest out) \<le> 0))"

fun merge_seq :: "'k::linorder FileMetaData list \<Rightarrow> 'k FileMetaData list \<Rightarrow> 'k FileMetaData list"
where
  "merge_seq base_rest [] = base_rest"
| "merge_seq base_rest (a # added) =
     takeWhile (\<lambda>x. \<not> BySmallestKey a x) base_rest @
     a # merge_seq (dropWhile (\<lambda>x. \<not> BySmallestKey a x) base_rest) added"


section \<open>VersionSet\<close>

text \<open>
  The state of a \<open>VersionSet\<close>. Versions live in a store indexed by address
  (\<open>vs_versions\<close>; \<open>new Version\<close> allocates the next address, \<open>delete\<close> empties the slot);
  \<open>vs_dummy_versions\<close> is the ring headed by \<open>dummy_versions_\<close>, front to back;
  \<open>vs_env_files\<close> is the set of file names that exist in \<open>env_\<close>; an open
  \<open>descriptor_file_\<close> or \<open>descriptor_log_\<close> is the name of the file it writes. An empty
  compaction pointer is \<open>None\<close>.
\<close>

record 'k VersionSet =
  vs_options :: Options
  vs_dbname :: string
  vs_env_files :: "string set"
  vs_next_file_number :: "64 word"
  vs_manifest_file_number :: "64 word"
  vs_last_sequence :: "64 word"
  vs_log_number :: "64 word"
  vs_prev_log_number :: "64 word"
  vs_descriptor_file :: "string option"
  vs_descriptor_log :: "string option"
  vs_versions :: "'k Version option list"
  vs_dummy_versions :: "nat list"
  vs_current :: "nat option"
  vs_compact_pointer :: "'k InternalKey option list"

text \<open>
  Modelled from the spec: \<open>DescriptorFileName\<close> and \<open>CurrentFileName\<close> (dbfiles.h) are not
  part of the sources at hand; the names are \<open>MANIFEST-<6-digit number>\<close> and \<open>CURRENT\<close>
  inside the database directory.
\<close>

fun decimal :: "nat \<Rightarrow> string" where
  "decimal n = (if n < 10 then [''0123456789'' ! n]
                else decimal (n div 10) @ [''0123456789'' ! (n mod 10)])"

declare decimal.simps [simp del]

definition DescriptorFileName :: "string \<Rightarrow> 64 word \<Rightarrow> string" where
  "DescriptorFileName dbname num =
     dbname @ ''/MANIFEST-'' @
     replicate (6 - length (decimal (unat num))) (CHR ''0'') @ decimal (unat num)"

definition CurrentFileName :: "string \<Rightarrow> string" where
  "CurrentFileName dbname = dbname @ ''/CURRENT''"

subsection \<open>The version store and reference counts\<close>

definition vget :: "'k VersionSet \<Rightarrow> nat \<Rightarrow> 'k Version option" where
  "vget vs a = (if a < length (vs_versions vs) then vs_versions vs ! a else None)"

definition vput :: "'k VersionSet \<Rightarrow> nat \<Rightarrow> 'k Version \<Rightarrow> 'k VersionSet" where
  "vput vs a v = vs\<lparr>vs_versions := (vs_versions vs)[a := Some v]\<rparr>"

definition new_Version :: "'k VersionSet \<Rightarrow> nat \<times> 'k VersionSet" where
  "new_Version vs =
     (length (vs_versions vs),
      vs\<lparr>vs_versions := vs_versions vs @ [Some (Version_new (vs_options vs))]\<rparr>)"

text \<open>
  \<open>Version::~Version\<close>: the version must be unreferenced; it is unlinked from the ring.
  (Dropping the references to its files is not modelled.)
\<close>

definition delete_Version :: "'k VersionSet \<Rightarrow> nat \<Rightarrow> 'k VersionSet option" where
  "delete_Version vs a = do {
     v \<leftarrow> vget vs a;
     assert (v_refs v = 0);
     Some (vs\<lparr>vs_versions := (vs_versions vs)[a := None],
              vs_dummy_versions := removeAll a (vs_dummy_versions vs)\<rparr>)
   }"

definition Version_Ref :: "'k VersionSet \<Rightarrow> nat \<Rightarrow> 'k VersionSet option" where
  "Version_Ref vs a = do {
     v \<leftarrow> vget vs a;
     Some (vput vs a (v\<lparr>v_refs := v_refs v + 1\<rparr>))
   }"

definition Version_Unref :: "'k VersionSet \<Rightarrow> nat \<Rightarrow> 'k VersionSet option" where
  "Version_Unref vs a = do {
     v \<leftarrow> vget vs a;
     assert (v_refs v \<ge> 1);
     let vs' = vput vs a (v\<lparr>v_refs := v_refs v - 1\<rparr>);
     if v_refs v - 1 = 0 then delete_Version vs' a else Some vs'
   }"

text \<open>
  The constructor of a builder takes a reference on the base version; the destructor
  drops it.
\<close>

definition Builder_ctor :: "'k VersionSet \<Rightarrow> nat \<Rightarrow> ('k VersionSet \<times> 'k Builder) option" where
  "Builder_ctor vs base = do {
     v \<leftarrow> vget vs base;
     vs' \<leftarrow> Version_Ref vs base;
     Some (vs', Builder_new (v_files v))
   }"

definition Builder_dtor :: "'k VersionSet \<Rightarrow> nat \<Rightarrow> 'k VersionSet option" where
  "Builder_dtor vs base = Version_Unref vs base"

subsection \<open>AppendVersion and the constructor\<close>

definition AppendVersion :: "'k VersionSet \<Rightarrow> nat \<Rightarrow> 'k VersionSet option" where
  "AppendVersion vs v = do {
     ver \<leftarrow> vget vs v;
     assert (v_refs ver = 0);
     assert (Some v \<noteq> vs_current vs);
     assert (enable_sublevel (vs_options vs) \<or>
             length (v_files ver) \<le> length (vs_compact_pointer vs));
     vs1 \<leftarrow> (case vs_current vs of None \<Rightarrow> Some vs | Some c \<Rightarrow> Version_Unref vs c);
     vs2 \<leftarrow> Version_Ref (vs1\<lparr>vs_current := Some v\<rparr>) v;
     Some (vs2\<lparr>vs_dummy_versions := vs_dummy_versions vs2 @ [v]\<rparr>)
   }"

definition VersionSet_new :: "string \<Rightarrow> Options \<Rightarrow> string set \<Rightarrow> 'k VersionSet option" where
  "VersionSet_new dbname options env_files =
     (let vs0 = \<lparr>vs_options = options, vs_dbname = dbname, vs_env_files = env_files,
                  vs_next_file_number = 2, vs_manifest_file_number = 0, vs_last_sequence = 0,
                  vs_log_number = 0, vs_prev_log_number = 0, vs_descriptor_file = None,
                  vs_descriptor_log = None, vs_versions = [], vs_dummy_versions = [],
                  vs_current = None,
                  vs_compact_pointer =
                    replicate (if enable_sublevel options then 0
                               else kMaxMemCompactLevel options + 1) None\<rparr>;
          (v, vs1) = new_Version vs0
      in AppendVersion vs1 v)"

definition MarkFileNumberUsed :: "64 word \<Rightarrow> 'k VersionSet \<Rightarrow> 'k VersionSet" where
  "MarkFileNumberUsed num vs =
     (if vs_next_file_number vs \<le> num then vs\<lparr>vs_next_file_number := num + 1\<rparr> else vs)"

subsection \<open>Finalize\<close>

text \<open>
  The scores are \<open>double\<close>s in the code and real numbers here. A zero divisor (an
  infinite or undefined score in the code) is outside the model: \<open>Finalize\<close> is \<open>None\<close>
  there, as it is where the code would read a row that does not exist.
\<close>

definition pool_rows :: "int \<times> int \<Rightarrow> int list" where
  "pool_rows p = map (\<lambda>j. fst p + int j) [0..<nat (snd p)]"

definition rows_bytes :: "'k Version \<Rightarrow> int list \<Rightarrow> 64 word option" where
  "rows_bytes v rows =
     foldM (\<lambda>i bytes. do {
              assert (0 \<le> i \<and> nat i < length (v_files v));
              Some (bytes + TotalFileSize (v_files v ! nat i))
            }) rows 0"

definition Finalize_score :: "Options \<Rightarrow> 'k Version \<Rightarrow> nat \<Rightarrow> real option" where
  "Finalize_score options v level =
     (if level = 0 then do {
        assert (v_files v \<noteq> []);
        assert (enable_sublevel options \<longrightarrow>
                  hd (v_input_pool v) = (0, 1) \<and> hd (v_output_pool v) = (0, 1));
        assert (l0_compaction_trigger options \<noteq> 0);
        Some (real (length (v_files v ! 0)) / real_of_int (sint (l0_compaction_trigger options)))
      } else do {
        bytes \<leftarrow> (if enable_sublevel options
                   then rows_bytes v (pool_rows (v_input_pool v ! level) @
                                      pool_rows (v_output_pool v ! level))
                   else Some (TotalFileSize (v_files v ! level)));
        assert (MaxBytesForLevel options level \<noteq> 0);
        Some (real (unat bytes) / MaxBytesForLevel options level)
      })"

fun Finalize_loop ::
  "Options \<Rightarrow> 'k Version \<Rightarrow> nat list \<Rightarrow> int \<times> real \<Rightarrow> (int \<times> real) option" where
  "Finalize_loop options v [] best = Some best"
| "Finalize_loop options v (level # levels) best =
     (case Finalize_score options v level of
        None \<Rightarrow> None
      | Some score \<Rightarrow>
          Finalize_loop options v levels
            (if score > snd best then (int level, score) else best))"

definition Finalize :: "Options \<Rightarrow> 'k Version \<Rightarrow> 'k Version option" where
  "Finalize options v = do {
     assert (enable_sublevel options \<or> (v_files v \<noteq> [] \<and> last (v_files v) = []));
     assert (enable_sublevel options \<longrightarrow>
               length (v_input_pool v) = length (v_output_pool v) \<and> v_input_pool v \<noteq> []);
     best \<leftarrow> Finalize_loop options v
               [0..<(if enable_sublevel options then length (v_input_pool v)
                     else length (v_files v)) - 1]
               (- 1, - 1);
     Some (v\<lparr>v_compaction_level := fst best, v_compaction_score := snd best\<rparr>)
   }"


subsection \<open>ForeighApply and LogAndApply\<close>

text \<open>
  \<open>ReorganizeSublevels\<close> (run only when sublevels are enabled) rewrites \<open>files_\<close>,
  \<open>input_pool_\<close> and \<open>output_pool_\<close> of the version being built, reading the pools of the
  current version and the edit, or aborts. It is a parameter here: a function from the
  current version, the version being built and the edit to the three new members, \<open>None\<close>
  for an abort. What is proved below holds for every such function.
\<close>

type_synonym 'k reorganize =
  "'k Version \<Rightarrow> 'k Version \<Rightarrow> 'k VersionEdit \<Rightarrow>
   ('k FileMetaData list list \<times> (int \<times> int) list \<times> (int \<times> int) list) option"

text \<open>
  The block \<open>{ Builder builder(this, current_); builder.Apply(edit); builder.SaveTo(v);
  if (options_->enable_sublevel) ReorganizeSublevels(v, edit); }\<close> that both functions
  run on a freshly allocated version \<open>v\<close>: \<open>build_files\<close> is what happens between the
  constructor and the destructor of the builder.
\<close>

definition build_files ::
  "'k::linorder reorganize \<Rightarrow> Options \<Rightarrow> 'k VersionEdit \<Rightarrow> 'k Builder \<Rightarrow>
   'k InternalKey option list \<Rightarrow> 'k Version \<Rightarrow> 'k Version \<Rightarrow>
   ('k Version \<times> 'k InternalKey option list) option" where
  "build_files reorg options edit builder cp curv ver = do {
     (builder', cp') \<leftarrow> Builder_Apply options edit (builder, cp);
     fs \<leftarrow> Builder_SaveTo options builder' (v_files ver);
     ver2 \<leftarrow> (if enable_sublevel options then do {
                 (fs', ip, op) \<leftarrow> reorg curv (ver\<lparr>v_files := fs\<rparr>) edit;
                 Some (ver\<lparr>v_files := fs', v_input_pool := ip, v_output_pool := op\<rparr>)
               } else Some (ver\<lparr>v_files := fs\<rparr>));
     Some (ver2, cp')
   }"

definition build_on_current ::
  "'k::linorder reorganize \<Rightarrow> 'k VersionEdit \<Rightarrow> nat \<Rightarrow> 'k VersionSet \<Rightarrow> 'k VersionSet option"
where
  "build_on_current reorg edit v vs = do {
     cur \<leftarrow> vs_current vs;
     (vs1, builder) \<leftarrow> Builder_ctor vs cur;
     curv \<leftarrow> vget vs1 cur;
     ver \<leftarrow> vget vs1 v;
     (ver2, cp) \<leftarrow> build_files reorg (vs_options vs1) edit builder (vs_compact_pointer vs1)
                     curv ver;
     Builder_dtor (vput (vs1\<lparr>vs_compact_pointer := cp\<rparr>) v ver2) cur
   }"

definition ForeighApply ::
  "'k::linorder reorganize \<Rightarrow> 'k VersionEdit \<Rightarrow> 'k VersionSet \<Rightarrow>
   (Status \<times> 'k VersionSet) option" where
  "ForeighApply reorg edit vs =
     (if ve_has_comparator edit \<and> ve_comparator edit \<noteq> comparator_name (vs_options vs)
      then Some (InvalidArgument (ve_comparator edit @ '' does not match existing comparator: ''
                                  @ comparator_name (vs_options vs)), vs)
      else do {
        assert (\<not> ve_has_log_number edit \<or> vs_log_number vs \<le> ve_log_number edit);
        let log_number = (if ve_has_log_number edit then ve_log_number edit
                          else vs_log_number vs);
        assert (\<not> ve_has_prev_log_number edit \<or>
                vs_prev_log_number vs \<le> ve_prev_log_number edit);
        let prev_log_number = (if ve_has_prev_log_number edit then ve_prev_log_number edit
                               else vs_prev_log_number vs);
        assert (\<not> ve_has_next_file_number edit \<or>
                vs_next_file_number vs \<le> ve_next_file_number edit);
        let next_file_number = (if ve_has_next_file_number edit then ve_next_file_number edit
                                else vs_next_file_number vs);
        assert (\<not> ve_has_last_sequence edit \<or> vs_last_sequence vs \<le> ve_last_sequence edit);
        let last_sequence = (if ve_has_last_sequence edit then ve_last_sequence edit
                             else vs_last_sequence vs);
        assert (log_number < next_file_number);
        let (v, vs1) = new_Version vs;
        vs2 \<leftarrow> build_on_current reorg edit v vs1;
        vs3 \<leftarrow> AppendVersion vs2 v;
        Some (OK, vs3\<lparr>vs_log_number := log_number, vs_prev_log_number := prev_log_number,
                       vs_next_file_number := next_file_number,
                       vs_last_sequence := last_sequence\<rparr>)
      })"

text \<open>
  The statuses of the calls into the environment that \<open>LogAndApply\<close> makes are inputs:
  \<open>NewWritableFile\<close>, the \<open>AddRecord\<close> of \<open>WriteSnapshot\<close>, the \<open>AddRecord\<close> of the edit,
  \<open>Sync\<close> and \<open>SetCurrentFile\<close>. The contents written to the MANIFEST are not modelled,
  only which files exist.
\<close>

record IOResult =
  io_NewWritableFile :: Status
  io_WriteSnapshot :: Status
  io_AddRecord :: Status
  io_Sync :: Status
  io_SetCurrentFile :: Status

definition WriteSnapshot :: "'k VersionSet \<Rightarrow> Status \<Rightarrow> Status option" where
  "WriteSnapshot vs add_record = do {
     cur \<leftarrow> vs_current vs;
     v \<leftarrow> vget vs cur;
     assert (enable_sublevel (vs_options vs) \<or>
             length (vs_compact_pointer vs) = length (v_files v));
     Some add_record
   }"

text \<open>
  \<open>LogAndApply\<close> in its four blocks: filling in the numbers of the edit; opening a new
  descriptor log when none is open (\<open>new_manifest_file\<close> is non-empty exactly then);
  the block that runs unlocked (appending the record, syncing, and installing a new
  MANIFEST); installing the new version or discarding it.
\<close>

definition LogAndApply_edit :: "'k VersionEdit \<Rightarrow> 'k VersionSet \<Rightarrow> 'k VersionEdit option" where
  "LogAndApply_edit edit0 vs = do {
     edit1 \<leftarrow> (if ve_has_log_number edit0 then do {
                  assert (ve_log_number edit0 \<ge> vs_log_number vs);
                  assert (ve_log_number edit0 < vs_next_file_number vs);
                  Some edit0
                } else Some (SetLogNumber (vs_log_number vs) edit0));
     let edit2 = (if \<not> ve_has_prev_log_number edit1
                  then SetPrevLogNumber (vs_prev_log_number vs) edit1 else edit1);
     Some (SetLastSequence (vs_last_sequence vs) (SetNextFile (vs_next_file_number vs) edit2))
   }"

definition LogAndApply_open :: "IOResult \<Rightarrow> 'k VersionSet \<Rightarrow> (Status \<times> 'k VersionSet) option" where
  "LogAndApply_open io vs =
     (if vs_descriptor_log vs = None then do {
        assert (vs_descriptor_file vs = None);
        assert (vs_manifest_file_number vs \<noteq> 0);
        let new_manifest_file = DescriptorFileName (vs_dbname vs) (vs_manifest_file_number vs);
        if ok (io_NewWritableFile io) then do {
          let vs' = vs\<lparr>vs_env_files := insert new_manifest_file (vs_env_files vs),
                         vs_descriptor_file := Some new_manifest_file,
                         vs_descriptor_log := Some new_manifest_file\<rparr>;
          s \<leftarrow> WriteSnapshot vs' (io_WriteSnapshot io);
          Some (s, vs')
        } else Some (io_NewWritableFile io, vs)
      } else Some (OK, vs))"

definition LogAndApply_write ::
  "IOResult \<Rightarrow> bool \<Rightarrow> Status \<Rightarrow> 'k VersionSet \<Rightarrow> (Status \<times> 'k VersionSet) option" where
  "LogAndApply_write io new_manifest s1 vs =
     (let s2 = (if ok s1 then (if ok (io_AddRecord io) then io_Sync io else io_AddRecord io)
                else s1)
      in if ok s2 \<and> new_manifest then
           (if \<not> rotating_manifest (vs_options vs) then
              Some (io_SetCurrentFile io,
                    if ok (io_SetCurrentFile io)
                    then vs\<lparr>vs_env_files :=
                               insert (CurrentFileName (vs_dbname vs)) (vs_env_files vs)\<rparr>
                    else vs)
            else do {
              assert (vs_manifest_file_number vs < 3);
              Some (s2, vs\<lparr>vs_env_files := vs_env_files vs -
                        {DescriptorFileName (vs_dbname vs) (3 - vs_manifest_file_number vs),
                         CurrentFileName (vs_dbname vs)}\<rparr>)
            })
         else Some (s2, vs))"

definition LogAndApply_install ::
  "Status \<Rightarrow> bool \<Rightarrow> 'k VersionEdit \<Rightarrow> nat \<Rightarrow> 'k VersionSet \<Rightarrow>
   (Status \<times> 'k VersionEdit \<times> 'k VersionSet) option" where
  "LogAndApply_install s new_manifest edit v vs =
     (if ok s then do {
        vs' \<leftarrow> AppendVersion vs v;
        Some (s, edit, vs'\<lparr>vs_log_number := ve_log_number edit,
                             vs_prev_log_number := ve_prev_log_number edit\<rparr>)
      } else do {
        vs' \<leftarrow> delete_Version vs v;
        Some (s, edit,
              if new_manifest
              then vs'\<lparr>vs_descriptor_log := None, vs_descriptor_file := None,
                        vs_env_files := vs_env_files vs' -
                          {DescriptorFileName (vs_dbname vs') (vs_manifest_file_number vs')}\<rparr>
              else vs')
      })"

definition LogAndApply ::
  "'k::linorder reorganize \<Rightarrow> IOResult \<Rightarrow> 'k VersionEdit \<Rightarrow> 'k VersionSet \<Rightarrow>
   (Status \<times> 'k VersionEdit \<times> 'k VersionSet) option" where
  "LogAndApply reorg io edit0 vs0 = do {
     edit \<leftarrow> LogAndApply_edit edit0 vs0;
     let (v, vs1) = new_Version vs0;
     vs2 \<leftarrow> build_on_current reorg edit v vs1;
     ver \<leftarrow> vget vs2 v;
     ver' \<leftarrow> Finalize (vs_options vs2) ver;
     let vs3 = vput vs2 v ver';
     let new_manifest = (vs_descriptor_log vs3 = None);
     (s1, vs4) \<leftarrow> LogAndApply_open io vs3;
     (s, vs5) \<leftarrow> LogAndApply_write io new_manifest s1 vs4;
     LogAndApply_install s new_manifest edit v vs5
   }"


subsection \<open>Recover\<close>

text \<open>
  What \<open>Recover\<close> reads is an input. A MANIFEST is seen through \<open>log::Reader\<close> and
  \<open>VersionEdit::DecodeFrom\<close> (neither is in the sources at hand): each \<open>ReadRecord\<close> that
  returns a record comes with the corruption that the reader reported on the way (if
  any), the status of decoding the record and the edit as far as it was decoded; the
  last \<open>ReadRecord\<close>, which returns false, may report a corruption too.
\<close>

record 'k LogRecord =
  lr_report :: "Status option"
  lr_decode :: Status
  lr_edit :: "'k VersionEdit"

record 'k ManifestFile =
  mf_records :: "'k LogRecord list"
  mf_eof_report :: "Status option"

record 'k ReadEnv =
  re_ReadFileToString :: "string \<Rightarrow> Status \<times> string"
  re_NewSequentialFile :: "string \<Rightarrow> Status \<times> 'k ManifestFile"

text \<open>The local variables of one round of the candidate loop.\<close>

record 'k ScanState =
  sc_s :: Status
  sc_builder :: "'k Builder"
  sc_compact_pointer :: "'k InternalKey option list"
  sc_have_log_number :: bool
  sc_have_prev_log_number :: bool
  sc_have_next_file :: bool
  sc_have_last_sequence :: bool
  sc_next_file :: "64 word"
  sc_last_seq :: "64 word"
  sc_log_number :: "64 word"
  sc_prev_log_number :: "64 word"

definition report :: "Status option \<Rightarrow> Status \<Rightarrow> Status" where
  "report r s = (case r of None \<Rightarrow> s | Some e \<Rightarrow> (if ok s then e else s))"

text \<open>
  The body of the reading loop: the status of a record (\<open>DecodeFrom\<close>, then the check
  of the comparator name) and the four \<open>if (edit.has_...)\<close> statements, which run also
  when the record was not decoded in full.
\<close>

definition decode_status :: "Options \<Rightarrow> 'k LogRecord \<Rightarrow> Status" where
  "decode_status options r =
     (if ok (lr_decode r) \<and> ve_has_comparator (lr_edit r) \<and>
         ve_comparator (lr_edit r) \<noteq> comparator_name options
      then InvalidArgument (ve_comparator (lr_edit r) @
             '' does not match existing comparator: '' @ comparator_name options)
      else lr_decode r)"

definition absorb_counters :: "'k VersionEdit \<Rightarrow> 'k ScanState \<Rightarrow> 'k ScanState" where
  "absorb_counters edit st =
     st\<lparr>sc_have_log_number := sc_have_log_number st \<or> ve_has_log_number edit,
        sc_log_number := (if ve_has_log_number edit then ve_log_number edit
                          else sc_log_number st),
        sc_have_prev_log_number := sc_have_prev_log_number st \<or> ve_has_prev_log_number edit,
        sc_prev_log_number := (if ve_has_prev_log_number edit then ve_prev_log_number edit
                               else sc_prev_log_number st),
        sc_have_next_file := sc_have_next_file st \<or> ve_has_next_file_number edit,
        sc_next_file := (if ve_has_next_file_number edit then ve_next_file_number edit
                         else sc_next_file st),
        sc_have_last_sequence := sc_have_last_sequence st \<or> ve_has_last_sequence edit,
        sc_last_seq := (if ve_has_last_sequence edit then ve_last_sequence edit
                        else sc_last_seq st)\<rparr>"

text \<open>\<open>while (reader.ReadRecord(&record, &scratch) && s.ok()) { ... }\<close>\<close>

fun Recover_scan ::
  "Options \<Rightarrow> 'k::linorder LogRecord list \<Rightarrow> Status option \<Rightarrow> 'k ScanState \<Rightarrow>
   'k ScanState option" where
  "Recover_scan options [] eof st = Some (st\<lparr>sc_s := report eof (sc_s st)\<rparr>)"
| "Recover_scan options (r # rs) eof st =
     (if \<not> ok (report (lr_report r) (sc_s st))
      then Some (st\<lparr>sc_s := report (lr_report r) (sc_s st)\<rparr>)
      else
        (case (if ok (decode_status options r)
               then Builder_Apply options (lr_edit r) (sc_builder st, sc_compact_pointer st)
               else Some (sc_builder st, sc_compact_pointer st)) of
           None \<Rightarrow> None
         | Some (b, cp) \<Rightarrow>
             Recover_scan options rs eof
               (absorb_counters (lr_edit r)
                  (st\<lparr>sc_s := decode_status options r, sc_builder := b,
                      sc_compact_pointer := cp\<rparr>))))"

text \<open>
  The check after the loop, entered when \<open>s\<close> is ok: the counters that must be present,
  and the default of \<open>prev_log_number\<close>.
\<close>

definition Recover_check :: "'k ScanState \<Rightarrow> 'k ScanState" where
  "Recover_check st =
     st\<lparr>sc_s := (if \<not> sc_have_next_file st
                  then Corruption ''no next_file entry in descriptor''
                  else if \<not> sc_have_log_number st
                  then Corruption ''no log_number entry in descriptor''
                  else if \<not> sc_have_last_sequence st
                  then Corruption ''no last_seq_number entry in descriptor''
                  else sc_s st),
        sc_prev_log_number := (if \<not> sc_have_prev_log_number st then 0
                               else sc_prev_log_number st)\<rparr>"

text \<open>
  One candidate that could be opened: build on the current version, scan, check, and
  mark the log numbers as used. The result is the final scan state and the VersionSet;
  the candidate is kept when the final status is ok and dropped (its builder deleted)
  otherwise.
\<close>

definition Recover_candidate ::
  "'k::linorder ManifestFile \<Rightarrow> nat \<Rightarrow> 'k VersionSet \<Rightarrow> ('k ScanState \<times> 'k VersionSet) option"
where
  "Recover_candidate file current vs = do {
     (vs1, builder) \<leftarrow> Builder_ctor vs current;
     st \<leftarrow> Recover_scan (vs_options vs1) (mf_records file) (mf_eof_report file)
            \<lparr>sc_s = OK, sc_builder = builder, sc_compact_pointer = vs_compact_pointer vs1,
             sc_have_log_number = False, sc_have_prev_log_number = False,
             sc_have_next_file = False, sc_have_last_sequence = False,
             sc_next_file = 0, sc_last_seq = 0, sc_log_number = 0, sc_prev_log_number = 0\<rparr>;
     let vs2 = vs1\<lparr>vs_compact_pointer := sc_compact_pointer st\<rparr>;
     if ok (sc_s st) then do {
       let st' = Recover_check st;
       let vs3 = MarkFileNumberUsed (sc_log_number st')
                   (MarkFileNumberUsed (sc_prev_log_number st') vs2);
       if ok (sc_s st') then Some (st', vs3)
       else do { vs4 \<leftarrow> Builder_dtor vs3 current; Some (st', vs4) }
     } else do { vs3 \<leftarrow> Builder_dtor vs2 current; Some (st, vs3) }
   }"

text \<open>The state of the candidate loop: \<open>status\<close>, \<open>candidates\<close>, \<open>selected\<close>, \<open>final_*\<close>.\<close>

record 'k RecoverState =
  rs_vs :: "'k VersionSet"
  rs_status :: Status
  rs_candidates :: "'k Builder option list"
  rs_selected :: "nat option"
  rs_final_next_file :: "64 word"
  rs_final_last_seq :: "64 word"
  rs_final_log_number :: "64 word"
  rs_final_prev_log_number :: "64 word"

definition Recover_step ::
  "'k::linorder ReadEnv \<Rightarrow> nat \<Rightarrow> nat \<times> string \<Rightarrow> 'k RecoverState \<Rightarrow> 'k RecoverState option"
where
  "Recover_step env current p rs = (case p of (i, name) \<Rightarrow>
     if name = [] then Some rs
     else
       (case re_NewSequentialFile env name of (s, file) \<Rightarrow>
          if \<not> ok s
          then Some (rs\<lparr>rs_status := (if ok (rs_status rs) then s else rs_status rs)\<rparr>)
          else do {
            (st, vs') \<leftarrow> Recover_candidate file current (rs_vs rs);
            if ok (sc_s st) then
              Some (if sc_last_seq st \<ge> rs_final_last_seq rs \<and>
                       sc_next_file st \<ge> rs_final_next_file rs \<and>
                       sc_log_number st \<ge> rs_final_log_number rs \<and>
                       sc_prev_log_number st \<ge> rs_final_prev_log_number rs
                    then rs\<lparr>rs_vs := vs',
                            rs_candidates := (rs_candidates rs)[i := Some (sc_builder st)],
                            rs_selected := Some i,
                            rs_final_last_seq := sc_last_seq st,
                            rs_final_log_number := sc_log_number st,
                            rs_final_prev_log_number := sc_prev_log_number st,
                            rs_final_next_file := sc_next_file st\<rparr>
                    else rs\<lparr>rs_vs := vs',
                            rs_candidates := (rs_candidates rs)[i := Some (sc_builder st)]\<rparr>)
            else Some (rs\<lparr>rs_vs := vs',
                           rs_status := (if ok (rs_status rs) then sc_s st
                                         else rs_status rs)\<rparr>)
          }))"

text \<open>
  The names of the three candidates (an empty name is skipped) and the status after
  reading CURRENT.
\<close>

definition Recover_names :: "'k ReadEnv \<Rightarrow> 'k VersionSet \<Rightarrow> Status \<times> (nat \<times> string) list" where
  "Recover_names env vs =
     (let name0 = (if DescriptorFileName (vs_dbname vs) 1 \<in> vs_env_files vs
                   then DescriptorFileName (vs_dbname vs) 1 else []);
          name1 = (if DescriptorFileName (vs_dbname vs) 2 \<in> vs_env_files vs
                   then DescriptorFileName (vs_dbname vs) 2 else []);
          (status, name2) =
            (if CurrentFileName (vs_dbname vs) \<in> vs_env_files vs then
               (case re_ReadFileToString env (CurrentFileName (vs_dbname vs)) of (s, cur) \<Rightarrow>
                  if ok s \<and> cur \<noteq> [] then
                    (if last cur \<noteq> CHR 0x0A
                     then (Corruption ''CURRENT file does not end with newline'', [])
                     else (OK, let n = vs_dbname vs @ ''/'' @ butlast cur
                               in if n = name0 \<or> n = name1 then [] else n))
                  else (s, []))
             else (OK, []))
      in (status, [(0, name0), (1, name1), (2, name2)]))"

text \<open>The block \<open>if (status.ok()) { ... }\<close> after the candidate loop.\<close>

definition Recover_install :: "'k::linorder RecoverState \<Rightarrow> (Status \<times> 'k VersionSet) option" where
  "Recover_install rs =
     (if ok (rs_status rs) then
        (case rs_selected rs of
           None \<Rightarrow> Some (Corruption (vs_dbname (rs_vs rs) @ '': no valid manifest available''),
                         rs_vs rs)
         | Some sel \<Rightarrow> do {
             selected \<leftarrow> rs_candidates rs ! sel;
             let (v, vsa) = new_Version (rs_vs rs);
             ver \<leftarrow> vget vsa v;
             fs \<leftarrow> Builder_SaveTo (vs_options vsa) selected (v_files ver);
             ver' \<leftarrow> Finalize (vs_options vsa) (ver\<lparr>v_files := fs\<rparr>);
             vsb \<leftarrow> AppendVersion (vput vsa v ver') v;
             Some (OK,
               (if \<not> rotating_manifest (vs_options vsb)
                then vsb\<lparr>vs_next_file_number := rs_final_next_file rs + 1,
                         vs_manifest_file_number := rs_final_next_file rs\<rparr>
                else vsb\<lparr>vs_next_file_number := rs_final_next_file rs,
                         vs_manifest_file_number := (if sel = 0 then 2 else 1)\<rparr>)
               \<lparr>vs_log_number := rs_final_log_number rs,
                vs_prev_log_number := rs_final_prev_log_number rs,
                vs_last_sequence := rs_final_last_seq rs\<rparr>)
           })
      else Some (rs_status rs, rs_vs rs))"

definition Recover :: "'k::linorder ReadEnv \<Rightarrow> 'k VersionSet \<Rightarrow> (Status \<times> 'k VersionSet) option"
where
  "Recover env vs = do {
     current \<leftarrow> vs_current vs;
     vs1 \<leftarrow> Version_Ref vs current;
     rs \<leftarrow> foldM (Recover_step env current) (snd (Recover_names env vs))
            \<lparr>rs_vs = vs1, rs_status = fst (Recover_names env vs),
             rs_candidates = [None, None, None], rs_selected = None,
             rs_final_next_file = 0, rs_final_last_seq = 0,
             rs_final_log_number = 0, rs_final_prev_log_number = 0\<rparr>;
     (status, vs2) \<leftarrow> Recover_install rs;
     vs3 \<leftarrow> foldM (\<lambda>c s. case c of None \<Rightarrow> Some s | Some b \<Rightarrow> Builder_dtor s current)
              (rs_candidates rs) vs2;
     vs4 \<leftarrow> Version_Unref vs3 current;
     Some (status, vs4)
   }"


subsection \<open>Vocabulary for the claims about the VersionSet\<close>

text \<open>
  \<open>current_ok\<close>: the current version exists and is referenced. \<open>opened_ok\<close>: the
  descriptor log is open when \<open>LogAndApply\<close> reaches the append of the edit (it was open
  already, or the new MANIFEST was created and its snapshot written). \<open>discarded vs vs'\<close>:
  the state \<open>vs'\<close> after a failed \<open>LogAndApply\<close> on \<open>vs\<close>: the same current version, the
  same counters, every version of \<open>vs\<close> as it was, the version that was built gone, and,
  when no descriptor log was open, the new MANIFEST deleted and both handles closed.
  \<open>well_read\<close>: every record of a MANIFEST was read and decoded without an error and
  names the right comparator.
\<close>

definition current_ok :: "'k VersionSet \<Rightarrow> bool" where
  "current_ok vs \<longleftrightarrow>
     (\<exists>c v. vs_current vs = Some c \<and> vget vs c = Some v \<and> 1 \<le> v_refs v)"

definition opened_ok :: "IOResult \<Rightarrow> 'k VersionSet \<Rightarrow> bool" where
  "opened_ok io vs \<longleftrightarrow>
     vs_descriptor_log vs \<noteq> None \<or> (ok (io_NewWritableFile io) \<and> ok (io_WriteSnapshot io))"

definition discarded :: "'k VersionSet \<Rightarrow> 'k VersionSet \<Rightarrow> bool" where
  "discarded vs vs' \<longleftrightarrow>
     vs_current vs' = vs_current vs \<and>
     vs_log_number vs' = vs_log_number vs \<and>
     vs_prev_log_number vs' = vs_prev_log_number vs \<and>
     vs_next_file_number vs' = vs_next_file_number vs \<and>
     vs_last_sequence vs' = vs_last_sequence vs \<and>
     (\<forall>a < length (vs_versions vs). vget vs' a = vget vs a) \<and>
     vget vs' (length (vs_versions vs)) = None \<and>
     length (vs_versions vs') = Suc (length (vs_versions vs)) \<and>
     (vs_descriptor_log vs = None \<longrightarrow>
        DescriptorFileName (vs_dbname vs) (vs_manifest_file_number vs) \<notin> vs_env_files vs' \<and>
        vs_descriptor_log vs' = None \<and> vs_descriptor_file vs' = None)"

definition well_read :: "Options \<Rightarrow> 'k ManifestFile \<Rightarrow> bool" where
  "well_read options fl \<longleftrightarrow>
     mf_eof_report fl = None \<and>
     (\<forall>r \<in> set (mf_records fl).
        lr_report r = None \<and> ok (lr_decode r) \<and>
        (ve_has_comparator (lr_edit r) \<longrightarrow> ve_comparator (lr_edit r) = comparator_name options))"


section \<open>The compaction planner\<close>

text \<open>
  A \<open>Compaction\<close>. The class is declared in version_set.h (not in the sources at hand);
  the record has the members that the constructor initialises, with the types of the
  expressions that initialise them, \<open>edit_\<close> and \<open>start_key_\<close> (an empty key is \<open>None\<close>).
  \<open>input_version_\<close> is the address of a version, \<open>options_\<close> is held by value.
\<close>

record 'k Compaction =
  c_options :: Options
  c_level :: int
  c_base_input_sublevel :: int
  c_output_sublevel :: int
  c_max_output_file_size :: "64 word"
  c_max_grand_parent_overlap_bytes :: "64 word"
  c_max_compaction_size :: "64 word"
  c_input_version :: "nat option"
  c_inputs :: "'k FileMetaData list list"
  c_grandparents :: "'k FileMetaData list"
  c_edit :: "'k VersionEdit"
  c_grandparent_index :: nat
  c_seen_key :: bool
  c_overlapped_bytes :: "64 word"
  c_level_ptrs :: "nat list"
  c_start_key :: "'k InternalKey option"

text \<open>Reading a \<open>SublevelPool\<close> at an \<open>int\<close> index; outside the vector there is no value.\<close>

definition pool_at :: "(int \<times> int) list \<Rightarrow> int \<Rightarrow> (int \<times> int) option" where
  "pool_at p i = (if 0 \<le> i \<and> nat i < length p then Some (p ! nat i) else None)"

text \<open>
  \<open>Compaction::Compaction\<close>. A negative number of input rows (a huge \<open>size_t\<close> in the code)
  is outside the model. The constructor takes a reference to the current version.
\<close>

definition Compaction_new ::
  "Options \<Rightarrow> int \<Rightarrow> 'k VersionSet \<Rightarrow> ('k Compaction \<times> 'k VersionSet) option" where
  "Compaction_new options level vs = do {
     a \<leftarrow> vs_current vs;
     cur \<leftarrow> vget vs a;
     outp \<leftarrow> (if enable_sublevel options then pool_at (v_output_pool cur) level
              else Some (- 1, 2));
     inp \<leftarrow> (if enable_sublevel options then pool_at (v_input_pool cur) (level + 1)
             else Some (- 1, 0));
     assert (0 \<le> snd outp);
     vs' \<leftarrow> Version_Ref vs a;
     Some (\<lparr>c_options = options,
            c_level = level,
            c_base_input_sublevel = fst outp,
            c_output_sublevel = fst inp,
            c_max_output_file_size = MaxFileSizeForLevel options (nat level),
            c_max_grand_parent_overlap_bytes = MaxGrandParentOverlapBytes options,
            c_max_compaction_size =
              (if enable_sublevel options then MaxCompactionSizeForLevel options (nat level)
               else - 1),
            c_input_version = Some a,
            c_inputs = replicate (nat (snd outp)) [],
            c_grandparents = [],
            c_edit = VersionEdit_new,
            c_grandparent_index = 0,
            c_seen_key = False,
            c_overlapped_bytes = 0,
            c_level_ptrs =
              replicate (if enable_sublevel options then 0 else length (v_files cur)) 0,
            c_start_key = None\<rparr>,
           vs')
   }"

text \<open>\<open>c->inputs_[which].push_back(f)\<close> and \<open>c->inputs_[which] = fs\<close>.\<close>

definition push_input ::
  "nat \<Rightarrow> 'k FileMetaData \<Rightarrow> 'k Compaction \<Rightarrow> 'k Compaction option" where
  "push_input which f c = do {
     assert (which < length (c_inputs c));
     Some (c\<lparr>c_inputs := (c_inputs c)[which := c_inputs c ! which @ [f]]\<rparr>)
   }"

definition set_input ::
  "nat \<Rightarrow> 'k FileMetaData list \<Rightarrow> 'k Compaction \<Rightarrow> 'k Compaction option" where
  "set_input which fs c = do {
     assert (which < length (c_inputs c));
     Some (c\<lparr>c_inputs := (c_inputs c)[which := fs]\<rparr>)
   }"

definition get_input :: "nat \<Rightarrow> 'k Compaction \<Rightarrow> 'k FileMetaData list option" where
  "get_input which c = do {
     assert (which < length (c_inputs c));
     Some (c_inputs c ! which)
   }"

subsection \<open>GetRange\<close>

definition GetRange_step ::
  "'k::linorder FileMetaData \<Rightarrow> 'k InternalKey \<times> 'k InternalKey \<Rightarrow>
   'k InternalKey \<times> 'k InternalKey" where
  "GetRange_step f r =
     (if icmp_Compare (smallest f) (fst r) < 0 then smallest f else fst r,
      if icmp_Compare (largest f) (snd r) > 0 then largest f else snd r)"

definition GetRange ::
  "'k::linorder FileMetaData list \<Rightarrow> ('k InternalKey \<times> 'k InternalKey) option" where
  "GetRange inputs =
     (case inputs of
        [] \<Rightarrow> None
      | f # fs \<Rightarrow> Some (fold GetRange_step fs (smallest f, largest f)))"

definition GetRange2 ::
  "'k::linorder FileMetaData list \<Rightarrow> 'k FileMetaData list \<Rightarrow>
   ('k InternalKey \<times> 'k InternalKey) option" where
  "GetRange2 inputs1 inputs2 = GetRange (inputs1 @ inputs2)"

subsection \<open>SetupOtherInputs\<close>

text \<open>
  The block that tries to grow the inputs of \<open>level\<close> without changing the inputs of
  \<open>level + 1\<close>. It works on \<open>(smallest, largest, inputs_[0], inputs_[1], all_start,
  all_limit)\<close>. The sizes are \<open>int64_t\<close> and are compared as signed numbers.
\<close>

type_synonym 'k plan =
  "'k InternalKey \<times> 'k InternalKey \<times> 'k FileMetaData list \<times> 'k FileMetaData list \<times>
   'k InternalKey \<times> 'k InternalKey"

definition SetupOtherInputs_expand ::
  "Options \<Rightarrow> 'k::linorder Version \<Rightarrow> nat \<Rightarrow> 'k plan \<Rightarrow> 'k plan option" where
  "SetupOtherInputs_expand options cur level p =
     (case p of (sm, lg, in0, in1, all_start, all_limit) \<Rightarrow>
      if in1 \<noteq> [] then do {
        expanded0 \<leftarrow> GetOverlappingInputs cur level (Some all_start) (Some all_limit);
        let inputs1_size = TotalFileSize in1;
        let expanded0_size = TotalFileSize expanded0;
        if length expanded0 > length in0 \<and>
           inputs1_size + expanded0_size <s ExpandedCompactionByteSizeLimit options
        then do {
          new_range \<leftarrow> GetRange expanded0;
          expanded1 \<leftarrow> GetOverlappingInputs cur (level + 1)
                         (Some (fst new_range)) (Some (snd new_range));
          if length expanded1 = length in1 then do {
            all_range \<leftarrow> GetRange2 expanded0 expanded1;
            Some (fst new_range, snd new_range, expanded0, expanded1,
                  fst all_range, snd all_range)
          } else Some p
        } else Some p
      } else Some p)"

definition SetupOtherInputs ::
  "'k::linorder Compaction \<Rightarrow> 'k VersionSet \<Rightarrow> ('k Compaction \<times> 'k VersionSet) option" where
  "SetupOtherInputs c vs = do {
     a \<leftarrow> vs_current vs;
     cur \<leftarrow> vget vs a;
     assert (length (v_files cur) = length (vs_compact_pointer vs));
     assert (0 \<le> c_level c \<and> nat (c_level c) < length (vs_compact_pointer vs));
     let level = nat (c_level c);
     in0 \<leftarrow> get_input 0 c;
     range0 \<leftarrow> GetRange in0;
     in1 \<leftarrow> GetOverlappingInputs cur (level + 1) (Some (fst range0)) (Some (snd range0));
     c1 \<leftarrow> set_input 1 in1 c;
     all_range \<leftarrow> GetRange2 in0 in1;
     p \<leftarrow> SetupOtherInputs_expand (vs_options vs) cur level
            (fst range0, snd range0, in0, in1, fst all_range, snd all_range);
     case p of (sm, lg, in0', in1', all_start, all_limit) \<Rightarrow> do {
       c2 \<leftarrow> set_input 0 in0' c1;
       c3 \<leftarrow> set_input 1 in1' c2;
       gp \<leftarrow> (if level + 2 < length (v_files cur)
               then GetOverlappingInputs cur (level + 2) (Some all_start) (Some all_limit)
               else Some (c_grandparents c3));
       Some (c3\<lparr>c_grandparents := gp, c_edit := SetCompactPointer level lg (c_edit c3)\<rparr>,
             vs\<lparr>vs_compact_pointer := (vs_compact_pointer vs)[level := Some lg]\<rparr>)
     }
   }"

subsection \<open>PickCompaction\<close>

text \<open>
  The loop that picks the first file after \<open>compact_pointer_[level]\<close>; \<open>None\<close> when it
  ends without a \<open>break\<close>. An empty compact pointer is \<open>None\<close>.
\<close>

fun PickCompaction_first ::
  "'k::linorder InternalKey option \<Rightarrow> 'k FileMetaData list \<Rightarrow> 'k FileMetaData option" where
  "PickCompaction_first cp [] = None"
| "PickCompaction_first cp (f # fs) =
     (if (case cp of None \<Rightarrow> True | Some p \<Rightarrow> icmp_Compare (largest f) p > 0)
      then Some f else PickCompaction_first cp fs)"

text \<open>
  \<open>SetupSublevelInputs(level, c)\<close> (the choice of the inputs in sublevel mode) reads the
  current version and the compaction and assigns \<open>c->start_key_\<close> and the rows of
  \<open>c->inputs_\<close>, nothing else. It is a parameter of the model: from the version set, the
  level and the new compaction it gives the values of \<open>start_key_\<close> and \<open>inputs_\<close> that it
  leaves, or nothing where the code aborts.
\<close>

type_synonym 'k setup_sublevel =
  "'k VersionSet \<Rightarrow> int \<Rightarrow> 'k Compaction \<Rightarrow>
   ('k InternalKey option \<times> 'k FileMetaData list list) option"

text \<open>The branch of a size compaction: the level and the compaction with its seed.\<close>

definition PickCompaction_size ::
  "'k setup_sublevel \<Rightarrow> 'k::linorder VersionSet \<Rightarrow> 'k Version \<Rightarrow>
   (int \<times> 'k Compaction \<times> 'k VersionSet) option" where
  "PickCompaction_size sub vs cur = do {
     let level = v_compaction_level cur;
     assert (0 \<le> level);
     assert (if enable_sublevel (vs_options vs)
             then length (v_input_pool cur) = length (v_output_pool cur) \<and>
                  nat level < length (v_input_pool cur)
             else nat level < length (v_files cur) \<and>
                  length (v_files cur) = length (vs_compact_pointer vs));
     cv \<leftarrow> Compaction_new (vs_options vs) level vs;
     if enable_sublevel (vs_options vs) then do {
       r \<leftarrow> sub (snd cv) level (fst cv);
       Some (level, (fst cv)\<lparr>c_start_key := fst r, c_inputs := snd r\<rparr>, snd cv)
     } else do {
       let fs = v_files cur ! nat level;
       c' \<leftarrow> (case PickCompaction_first (vs_compact_pointer vs ! nat level) fs of
                Some f \<Rightarrow> push_input 0 f (fst cv)
              | None \<Rightarrow> do { assert (fs \<noteq> []); push_input 0 (fs ! 0) (fst cv) });
       Some (level, c', snd cv)
     }
   }"

text \<open>The branch of a seek compaction.\<close>

definition PickCompaction_seek ::
  "'k VersionSet \<Rightarrow> 'k Version \<Rightarrow> (int \<times> 'k Compaction \<times> 'k VersionSet) option" where
  "PickCompaction_seek vs cur = do {
     let level = v_file_to_compact_level cur;
     cv \<leftarrow> Compaction_new (vs_options vs) level vs;
     f \<leftarrow> v_file_to_compact cur;
     c' \<leftarrow> push_input 0 f (fst cv);
     Some (level, c', snd cv)
   }"

text \<open>The rest of \<open>PickCompaction\<close>, after the seed has been chosen.\<close>

definition PickCompaction_inputs ::
  "int \<Rightarrow> 'k::linorder Compaction \<Rightarrow> 'k VersionSet \<Rightarrow>
   ('k Compaction \<times> 'k VersionSet) option" where
  "PickCompaction_inputs level c vs =
     (if \<not> enable_sublevel (vs_options vs) then do {
        c1 \<leftarrow> (if level = 0 then do {
                 a \<leftarrow> vs_current vs;
                 cur \<leftarrow> vget vs a;
                 in0 \<leftarrow> get_input 0 c;
                 range0 \<leftarrow> GetRange in0;
                 all0 \<leftarrow> GetOverlappingInputs cur 0 (Some (fst range0)) (Some (snd range0));
                 assert (all0 \<noteq> []);
                 set_input 0 all0 c
               } else Some c);
        SetupOtherInputs c1 vs
      } else Some (c, vs))"

text \<open>\<open>PickCompaction\<close> returns a compaction or \<open>NULL\<close> (the inner \<open>None\<close>).\<close>

definition PickCompaction ::
  "'k setup_sublevel \<Rightarrow> bool \<Rightarrow> 'k::linorder VersionSet \<Rightarrow>
   ('k Compaction option \<times> 'k VersionSet) option" where
  "PickCompaction sub allow_seek_compaction vs = do {
     a \<leftarrow> vs_current vs;
     cur \<leftarrow> vget vs a;
     let size_compaction = (v_compaction_score cur \<ge> 1);
     let seek_compaction = (v_file_to_compact cur \<noteq> None);
     if size_compaction then do {
       seeded \<leftarrow> PickCompaction_size sub vs cur;
       r \<leftarrow> PickCompaction_inputs (fst seeded) (fst (snd seeded)) (snd (snd seeded));
       Some (Some (fst r), snd r)
     } else if allow_seek_compaction \<and> seek_compaction then do {
       seeded \<leftarrow> PickCompaction_seek vs cur;
       r \<leftarrow> PickCompaction_inputs (fst seeded) (fst (snd seeded)) (snd (snd seeded));
       Some (Some (fst r), snd r)
     } else Some (None, vs)
   }"

subsection \<open>CompactRange\<close>

text \<open>
  The loop that cuts the inputs of a level above 0: the running \<open>total\<close> (\<open>tot\<close>) is a \<open>uint64_t\<close>; the
  file that takes it to \<open>limit\<close> or beyond is the last one kept.
\<close>

fun CompactRange_truncate ::
  "64 word \<Rightarrow> 64 word \<Rightarrow> 'k FileMetaData list \<Rightarrow> 'k FileMetaData list" where
  "CompactRange_truncate limit tot [] = []"
| "CompactRange_truncate limit tot (f # fs) =
     (if tot + file_size f \<ge> limit then [f]
      else f # CompactRange_truncate limit (tot + file_size f) fs)"

definition CompactRange ::
  "int \<Rightarrow> 'k::linorder InternalKey option \<Rightarrow> 'k InternalKey option \<Rightarrow> 'k VersionSet \<Rightarrow>
   ('k Compaction option \<times> 'k VersionSet) option" where
  "CompactRange level begin end' vs = do {
     a \<leftarrow> vs_current vs;
     cur \<leftarrow> vget vs a;
     assert (0 \<le> level \<and> nat level < length (v_files cur));
     if enable_sublevel (vs_options vs) then do {
       assert (begin = None);
       Some (None, vs)
     } else do {
       assert (length (v_files cur) = length (vs_compact_pointer vs));
       inputs \<leftarrow> GetOverlappingInputs cur (nat level) begin end';
       if inputs = [] then Some (None, vs)
       else do {
         let inputs' = (if level > 0
                        then CompactRange_truncate
                               (MaxFileSizeForLevel (vs_options vs) (nat level)) 0 inputs
                        else inputs);
         cv \<leftarrow> Compaction_new (vs_options vs) level vs;
         c \<leftarrow> set_input 0 inputs' (fst cv);
         r \<leftarrow> SetupOtherInputs c (snd cv);
         Some (Some (fst r), snd r)
       }
     }
   }"

subsection \<open>IsTrivialMove\<close>

text \<open>
  Modelled from the spec: \<open>num_input_files(which)\<close> and \<open>level()\<close> are declared in
  version_set.h (not in the sources at hand); \<open>num_input_files(which)\<close> is the number of
  files in \<open>inputs_[which]\<close>.
\<close>

definition num_input_files :: "'k Compaction \<Rightarrow> nat \<Rightarrow> nat option" where
  "num_input_files c which = do {
     assert (which < length (c_inputs c));
     Some (length (c_inputs c ! which))
   }"

text \<open>\<open>TotalNumInputFiles(false, NULL)\<close>: the files of all input rows.\<close>

definition TotalNumInputFiles :: "'k Compaction \<Rightarrow> nat" where
  "TotalNumInputFiles c = foldl (\<lambda>count row. count + length row) 0 (c_inputs c)"

definition IsTrivialMove :: "'k Compaction \<Rightarrow> bool option" where
  "IsTrivialMove c =
     (if \<not> enable_sublevel (c_options c) then do {
        n0 \<leftarrow> num_input_files c 0;
        if n0 = 1 then do {
          n1 \<leftarrow> num_input_files c 1;
          Some (n1 = 0 \<and>
                (\<not> enable_should_stop_before (c_options c) \<or>
                 TotalFileSize (c_grandparents c) \<le>s c_max_grand_parent_overlap_bytes c))
        } else Some False
      } else Some (TotalNumInputFiles c = 1))"

subsection \<open>Vocabulary for the claims about the planner\<close>

text \<open>
  \<open>spec_seed\<close> follows the words of the specification: the first file of the level whose
  largest key is greater than the compact pointer of the level (every key is greater than
  an empty pointer), wrapping to index 0 if there is none.
\<close>

definition spec_seed :: "'k::linorder InternalKey option \<Rightarrow> 'k FileMetaData list \<Rightarrow> 'k FileMetaData" where
  "spec_seed cp fs =
     (case find (\<lambda>f. case cp of None \<Rightarrow> True | Some p \<Rightarrow> icmp_Compare (largest f) p > 0) fs of
        Some f \<Rightarrow> f
      | None \<Rightarrow> fs ! 0)"

text \<open>
  \<open>capped_prefix limit inputs out\<close>: \<open>out\<close> is the shortest non-empty prefix of \<open>inputs\<close>
  whose bytes reach \<open>limit\<close>, or all of \<open>inputs\<close> if no prefix does. The sums are those of the
  code (64 bits, wrapping) and are compared as unsigned numbers.
\<close>

definition capped_prefix ::
  "64 word \<Rightarrow> 'k FileMetaData list \<Rightarrow> 'k FileMetaData list \<Rightarrow> bool" where
  "capped_prefix limit inputs out \<longleftrightarrow>
     out = take (length out) inputs \<and> (inputs \<noteq> [] \<longrightarrow> out \<noteq> []) \<and>
     (\<forall>n. 0 < n \<and> n < length out \<longrightarrow> TotalFileSize (take n inputs) < limit) \<and>
     (length out < length inputs \<longrightarrow> limit \<le> TotalFileSize out)"

text \<open>The result of \<open>PickCompaction\<close> when the rest of the function returns \<open>c\<close>.\<close>

definition planned ::
  "('k Compaction \<times> 'k VersionSet) option \<Rightarrow> ('k Compaction option \<times> 'k VersionSet) option" where
  "planned r = map_option (\<lambda>p. (Some (fst p), snd p)) r"

text \<open>A file whose smallest user key is not above its largest user key.\<close>

definition key_ordered :: "'k::linorder FileMetaData \<Rightarrow> bool" where
  "key_ordered f \<longleftrightarrow> user_key (smallest f) \<le> user_key (largest f)"


section \<open>Example data\<close>

text \<open>
  A descriptor as \<open>VersionEdit::AddFile(level, number, file_size, seq_off, smallest,
  largest)\<close> records it, over natural numbers as user keys, and options with small
  thresholds; used to run the definitions on concrete inputs.
\<close>

definition example_file ::
  "64 word \<Rightarrow> 64 word \<Rightarrow> nat InternalKey \<Rightarrow> nat InternalKey \<Rightarrow> nat FileMetaData" where
  "example_file num sz lo hi =
     \<lparr>refs = 0, allowed_seeks = 0, number = num, file_size = sz, seq_off = 0,
      smallest = lo, largest = hi\<rparr>"

definition example_options :: Options where
  "example_options =
     \<lparr>enable_sublevel = False, enable_should_stop_before = True, rotating_manifest = False,
      level_factor = 10, table_file_size = 1000, l0_compaction_trigger = 4,
      l1_compaction_trigger = 5, kMaxMemCompactLevel = 2, comparator_name = ''leveldb.BytewiseComparator''\<rparr>"


definition example_vset :: "nat VersionSet" where
  "example_vset =
     \<lparr>vs_options = example_options, vs_dbname = ''db'', vs_env_files = {},
      vs_next_file_number = 2, vs_manifest_file_number = 1, vs_last_sequence = 0,
      vs_log_number = 0, vs_prev_log_number = 0, vs_descriptor_file = None,
      vs_descriptor_log = None,
      vs_versions = [Some ((Version_new example_options)\<lparr>v_refs := 1\<rparr>)],
      vs_dummy_versions = [0], vs_current = Some 0,
      vs_compact_pointer = [None, None, None]\<rparr>"

definition example_edit :: "nat VersionEdit" where
  "example_edit = VersionEdit_new\<lparr>ve_new_files :=
        [(0, example_file 7 1000 (InternalKey 1 9 1) (InternalKey 5 8 1))]\<rparr>"

definition example_version :: "nat Version" where
  "example_version =
     (Version_new example_options)
       \<lparr>v_files := [[(example_file 7 1000 (InternalKey 1 9 1) (InternalKey 5 8 1))
                        \<lparr>refs := 2, allowed_seeks := 100\<rparr>], [], []],
        v_refs := 1, v_compaction_score := 1 / 4, v_compaction_level := 0\<rparr>"

definition no_reorganize :: "nat reorganize" where
  "no_reorganize curv ver edit = None"

definition io_all_ok :: IOResult where
  "io_all_ok = \<lparr>io_NewWritableFile = OK, io_WriteSnapshot = OK,
     io_AddRecord = OK, io_Sync = OK, io_SetCurrentFile = OK\<rparr>"

definition io_append_fails :: IOResult where
  "io_append_fails = \<lparr>io_NewWritableFile = OK, io_WriteSnapshot = OK,
     io_AddRecord = IOError ''disk full'', io_Sync = OK, io_SetCurrentFile = OK\<rparr>"

text \<open>A MANIFEST of one record that carries no \<open>prev_log_number\<close>.\<close>

definition example_manifest_edit :: "nat VersionEdit" where
  "example_manifest_edit =
     VersionEdit_new\<lparr>ve_has_log_number := True, ve_log_number := 3,
       ve_has_next_file_number := True, ve_next_file_number := 8,
       ve_has_last_sequence := True, ve_last_sequence := 10,
       ve_new_files := [(0, example_file 7 1000 (InternalKey 1 9 1) (InternalKey 5 8 1))]\<rparr>"

definition example_manifest :: "nat ManifestFile" where
  "example_manifest =
     \<lparr>mf_records = [\<lparr>lr_report = None, lr_decode = OK, lr_edit = example_manifest_edit\<rparr>],
      mf_eof_report = None\<rparr>"

definition example_read_env :: "nat ReadEnv" where
  "example_read_env =
     \<lparr>re_ReadFileToString = (\<lambda>name. (NotFound, [])),
      re_NewSequentialFile = (\<lambda>name. (OK, example_manifest))\<rparr>"


text \<open>
  A tree of three levels: one file in level 0, two in level 1 (6000 bytes, over the 5000
  bytes allowed there), one large file in level 2; the last compaction of level 1 ended at
  the first file of that level.
\<close>

definition example_l0 :: "nat FileMetaData" where
  "example_l0 = example_file 7 1000 (InternalKey 1 9 1) (InternalKey 2 8 1)"

definition example_l1a :: "nat FileMetaData" where
  "example_l1a = example_file 11 3000 (InternalKey 3 7 1) (InternalKey 4 6 1)"

definition example_l1b :: "nat FileMetaData" where
  "example_l1b = example_file 12 3000 (InternalKey 5 5 1) (InternalKey 8 4 1)"

definition example_l2 :: "nat FileMetaData" where
  "example_l2 = example_file 13 20000 (InternalKey 1 3 1) (InternalKey 7 2 1)"

definition example_tree_version :: "nat Version" where
  "example_tree_version =
     \<lparr>v_files = [[example_l0], [example_l1a, example_l1b], [example_l2]],
      v_refs = 1, v_input_pool = [], v_output_pool = [],
      v_file_to_compact = None, v_file_to_compact_level = - 1,
      v_compaction_score = 6 / 5, v_compaction_level = 1\<rparr>"

definition example_tree :: "Options \<Rightarrow> nat VersionSet" where
  "example_tree options =
     \<lparr>vs_options = options, vs_dbname = ''db'', vs_env_files = {},
      vs_next_file_number = 14, vs_manifest_file_number = 1, vs_last_sequence = 9,
      vs_log_number = 0, vs_prev_log_number = 0, vs_descriptor_file = None,
      vs_descriptor_log = None,
      vs_versions = [Some example_tree_version],
      vs_dummy_versions = [0], vs_current = Some 0,
      vs_compact_pointer = [None, Some (InternalKey 4 6 1), None]\<rparr>"

text \<open>The tree after a compaction was planned: one more reference, a new compact pointer.\<close>

definition example_tree_planned ::
  "Options \<Rightarrow> nat \<Rightarrow> nat InternalKey \<Rightarrow> nat VersionSet" where
  "example_tree_planned options level key =
     (example_tree options)
       \<lparr>vs_versions := [Some (example_tree_version\<lparr>v_refs := 2\<rparr>)],
        vs_compact_pointer := [None, Some (InternalKey 4 6 1), None][level := Some key]\<rparr>"

definition example_plan ::
  "Options \<Rightarrow> nat \<Rightarrow> nat FileMetaData list \<Rightarrow> nat FileMetaData list \<Rightarrow>
   nat FileMetaData list \<Rightarrow> nat InternalKey \<Rightarrow> nat Compaction" where
  "example_plan options level in0 in1 gp key =
     \<lparr>c_options = options, c_level = int level, c_base_input_sublevel = - 1,
      c_output_sublevel = - 1, c_max_output_file_size = table_file_size options,
      c_max_grand_parent_overlap_bytes = MaxGrandParentOverlapBytes options,
      c_max_compaction_size = - 1, c_input_version = Some 0,
      c_inputs = [in0, in1], c_grandparents = gp,
      c_edit = SetCompactPointer level key VersionEdit_new,
      c_grandparent_index = 0, c_seen_key = False, c_overlapped_bytes = 0,
      c_level_ptrs = [0, 0, 0], c_start_key = None\<rparr>"

definition no_sublevel_inputs :: "nat setup_sublevel" where
  "no_sublevel_inputs vs level c = None"

definition example_options_no_stop :: Options where
  "example_options_no_stop = example_options\<lparr>enable_should_stop_before := False\<rparr>"


text \<open>
  The example tree with no size compaction pending and the first file of level 1 marked by
  the seek statistics; and a small tree in sublevel mode, with a stand-in for
  \<open>SetupSublevelInputs\<close> that picks the file of row 0.
\<close>

definition example_seek_tree :: "nat VersionSet" where
  "example_seek_tree =
     (example_tree example_options)
       \<lparr>vs_versions :=
          [Some (example_tree_version\<lparr>v_compaction_score := 1 / 2,
                   v_file_to_compact := Some example_l1a, v_file_to_compact_level := 1\<rparr>)]\<rparr>"

definition example_options_sublevel :: Options where
  "example_options_sublevel = example_options\<lparr>enable_sublevel := True\<rparr>"

definition example_sublevel_version :: "nat Version" where
  "example_sublevel_version =
     \<lparr>v_files = [[example_l0], [example_l1a]],
      v_refs = 1, v_input_pool = [(0, 1), (1, 1)], v_output_pool = [(0, 1), (2, 0)],
      v_file_to_compact = None, v_file_to_compact_level = - 1,
      v_compaction_score = 6 / 5, v_compaction_level = 0\<rparr>"

definition example_sublevel_tree :: "nat VersionSet" where
  "example_sublevel_tree =
     (example_tree example_options_sublevel)
       \<lparr>vs_versions := [Some example_sublevel_version]\<rparr>"

definition example_sublevel_inputs :: "nat setup_sublevel" where
  "example_sublevel_inputs vs level c = Some (None, [[example_l0]])"

definition example_sublevel_plan :: "nat Compaction" where
  "example_sublevel_plan =
     \<lparr>c_options = example_options_sublevel, c_level = 0, c_base_input_sublevel = 0,
      c_output_sublevel = 1,
      c_max_output_file_size = table_file_size example_options_sublevel,
      c_max_grand_parent_overlap_bytes = MaxGrandParentOverlapBytes example_options_sublevel,
      c_max_compaction_size = MaxCompactionSizeForLevel example_options_sublevel 0,
      c_input_version = Some 0,
      c_inputs = [[]], c_grandparents = [],
      c_edit = VersionEdit_new,
      c_grandparent_index = 0, c_seen_key = False, c_overlapped_bytes = 0,
      c_level_ptrs = [], c_start_key = None\<rparr>"

section \<open>Helper lemmas\<close>

lemma foldM_invariant:
  "foldM step xs s = Some s' \<Longrightarrow> I s \<Longrightarrow>
   (\<And>x s t. I s \<Longrightarrow> step x s = Some t \<Longrightarrow> I t) \<Longrightarrow> I s'"
  by (induction xs arbitrary: s) (auto split: option.splits)

lemma assert_Some [simp]: "assert b = Some u \<longleftrightarrow> b"
  by (simp add: assert_def)

lemma bind_assert [simp]: "(assert b \<bind> f) = (if b then f () else None)"
  by (simp add: assert_def)


section \<open>Properties of the comparators\<close>

lemma icmp_Compare_le_less_trans:
  "icmp_Compare a b \<le> 0 \<Longrightarrow> icmp_Compare b c < 0 \<Longrightarrow> icmp_Compare a c < 0"
  by (auto simp: icmp_Compare_def ucmp_Compare_def Let_def split: if_splits)

lemma icmp_Compare_less_le_trans:
  "icmp_Compare a b < 0 \<Longrightarrow> icmp_Compare b c \<le> 0 \<Longrightarrow> icmp_Compare a c < 0"
  by (auto simp: icmp_Compare_def ucmp_Compare_def Let_def split: if_splits)

lemma icmp_Compare_le_trans:
  "icmp_Compare a b \<le> 0 \<Longrightarrow> icmp_Compare b c \<le> 0 \<Longrightarrow> icmp_Compare a c \<le> 0"
  by (auto simp: icmp_Compare_def ucmp_Compare_def Let_def split: if_splits)

lemma icmp_Compare_refl: "icmp_Compare a a = 0"
  by (simp add: icmp_Compare_def ucmp_Compare_def)

lemma icmp_Compare_flip: "icmp_Compare a b < 0 \<longleftrightarrow> icmp_Compare b a > 0"
  by (auto simp: icmp_Compare_def ucmp_Compare_def Let_def split: if_splits)

section \<open>FindFile returns the lower bound\<close>

lemma FindFile_loop_correct:
  assumes len: "length files < 2 ^ 31"
    and srt: "\<forall>i j. i \<le> j \<and> j < length files \<longrightarrow>
                icmp_Compare (largest (files ! i)) (largest (files ! j)) \<le> 0"
  shows "l \<le> r \<Longrightarrow> r \<le> length files \<Longrightarrow>
         (\<forall>i<l. icmp_Compare (largest (files ! i)) key < 0) \<Longrightarrow>
         (\<forall>i. r \<le> i \<and> i < length files \<longrightarrow> 0 \<le> icmp_Compare (largest (files ! i)) key) \<Longrightarrow>
         \<exists>res. FindFile_loop files key (of_nat l) (of_nat r) = Some (of_nat res) \<and>
               res \<le> length files \<and>
               (\<forall>i<res. icmp_Compare (largest (files ! i)) key < 0) \<and>
               (\<forall>i. res \<le> i \<and> i < length files \<longrightarrow>
                    0 \<le> icmp_Compare (largest (files ! i)) key)"
proof (induction "r - l" arbitrary: l r rule: less_induct)
  case less
  have rb: "r < 2 ^ 31" using less.prems(2) len by simp
  have lb: "l < 2 ^ 31" using less.prems(1) rb by simp
  have ul: "unat (of_nat l :: 32 word) = l" using lb by (simp add: unat_of_nat)
  have ur: "unat (of_nat r :: 32 word) = r" using rb by (simp add: unat_of_nat)
  show ?case
  proof (cases "l < r")
    case False
    then have "\<not> (of_nat l :: 32 word) < of_nat r"
      by (simp add: word_less_nat_alt ul ur)
    then have "FindFile_loop files key (of_nat l) (of_nat r) = Some (of_nat r)"
      by (subst FindFile_loop.simps) simp
    moreover have "l = r" using False less.prems(1) by simp
    ultimately show ?thesis using less.prems by auto
  next
    case True
    define m where "m = (l + r) div 2"
    have mb: "l \<le> m" "m < r" using True by (simp_all add: m_def)
    have lt: "(of_nat l :: 32 word) < of_nat r"
      using True by (simp add: word_less_nat_alt ul ur)
    have sum: "unat ((of_nat l :: 32 word) + of_nat r) = l + r"
      using lb rb ul ur by (simp add: unat_word_ariths)
    have um: "unat (((of_nat l :: 32 word) + of_nat r) div 2) = m"
      by (simp add: unat_div sum m_def)
    have mid: "((of_nat l :: 32 word) + of_nat r) div 2 = of_nat m"
      by (simp add: word_arith_nat_div [of "of_nat l + of_nat r"] sum m_def)
    have um': "unat (of_nat m :: 32 word) = m" using um by (simp only: mid)
    have mid1: "(of_nat m :: 32 word) + 1 = of_nat (Suc m)" by simp
    have mlen: "m < length files" using mb less.prems(2) by simp
    have unfold: "FindFile_loop files key (of_nat l) (of_nat r) =
        (if icmp_Compare (largest (files ! m)) key < 0
         then FindFile_loop files key (of_nat (Suc m)) (of_nat r)
         else FindFile_loop files key (of_nat l) (of_nat m))"
      by (subst FindFile_loop.simps) (simp add: lt Let_def mid um' mid1 del: of_nat_Suc)
    show ?thesis
    proof (cases "icmp_Compare (largest (files ! m)) key < 0")
      case lo: True
      have below: "\<forall>i<Suc m. icmp_Compare (largest (files ! i)) key < 0"
      proof (intro allI impI)
        fix i assume "i < Suc m"
        then have "icmp_Compare (largest (files ! i)) (largest (files ! m)) \<le> 0"
          using srt mlen by simp
        then show "icmp_Compare (largest (files ! i)) key < 0"
          using lo by (rule icmp_Compare_le_less_trans)
      qed
      have "r - Suc m < r - l" using mb by simp
      from less.hyps [OF this _ less.prems(2) below less.prems(4)] mb
      show ?thesis by (simp add: unfold lo del: of_nat_Suc)
    next
      case hi: False
      have above: "\<forall>i. m \<le> i \<and> i < length files \<longrightarrow>
                     0 \<le> icmp_Compare (largest (files ! i)) key"
      proof (intro allI impI)
        fix i assume i: "m \<le> i \<and> i < length files"
        then have le: "icmp_Compare (largest (files ! m)) (largest (files ! i)) \<le> 0"
          using srt by simp
        show "0 \<le> icmp_Compare (largest (files ! i)) key"
        proof (rule ccontr)
          assume "\<not> 0 \<le> icmp_Compare (largest (files ! i)) key"
          then have "icmp_Compare (largest (files ! i)) key < 0" by simp
          with le have "icmp_Compare (largest (files ! m)) key < 0"
            by (rule icmp_Compare_le_less_trans)
          with hi show False by simp
        qed
      qed
      have "m - l < r - l" using mb by simp
      from less.hyps [OF this mb(1) _ less.prems(3) above] mlen
      show ?thesis by (simp add: unfold hi)
    qed
  qed
qed

text \<open>
  C9 (as amended). For a vector of files sorted ascending by largest key (and short enough
  for the 32-bit index arithmetic and the \<open>int\<close> result, that is, of fewer than \<open>2^31\<close> files),
  \<open>FindFile\<close> returns the smallest index whose file has \<open>largest \<ge> key\<close> under the
  internal key comparator, or the number of files when there is none: every file before
  the returned index has \<open>largest < key\<close>, every file from it on has \<open>largest \<ge> key\<close>.
\<close>

theorem FindFile_lower_bound:
  assumes "length files < 2 ^ 31"
    and "\<forall>i j. i \<le> j \<and> j < length files \<longrightarrow>
           icmp_Compare (largest (files ! i)) (largest (files ! j)) \<le> 0"
  shows "\<exists>r. FindFile files key = Some (int r) \<and> r \<le> length files \<and>
             (\<forall>i<r. icmp_Compare (largest (files ! i)) key < 0) \<and>
             (\<forall>i. r \<le> i \<and> i < length files \<longrightarrow>
                  0 \<le> icmp_Compare (largest (files ! i)) key)"
proof -
  from FindFile_loop_correct [OF assms, of 0 "length files" key]
  obtain res where res: "FindFile_loop files key 0 (of_nat (length files)) = Some (of_nat res)"
      "res \<le> length files"
      "\<forall>i<res. icmp_Compare (largest (files ! i)) key < 0"
      "\<forall>i. res \<le> i \<and> i < length files \<longrightarrow> 0 \<le> icmp_Compare (largest (files ! i)) key"
    by auto
  have "res < 2 ^ 31" using res(2) assms(1) by simp
  then have "sint (of_nat res :: 32 word) = int res"
    by (simp add: signed_of_nat signed_take_bit_int_eq_self)
  then show ?thesis using res by (auto simp: FindFile_def)
qed

theorem FindFile_lower_bound_witness:
  "\<exists>r. FindFile
        [\<lparr>refs = 1, allowed_seeks = 100, number = 7, file_size = 1000, seq_off = 0,
           smallest = InternalKey (1::nat) 5 1, largest = InternalKey 3 5 1\<rparr>,
         \<lparr>refs = 1, allowed_seeks = 100, number = 8, file_size = 1000, seq_off = 0,
           smallest = InternalKey 4 5 1, largest = InternalKey 6 5 1\<rparr>]
        (InternalKey 5 9 1) = Some (int r) \<and> r \<le> 2"
proof -
  let ?f = "\<lparr>refs = 1, allowed_seeks = 100, number = 7, file_size = 1000, seq_off = 0,
           smallest = InternalKey (1::nat) 5 1, largest = InternalKey 3 5 1\<rparr>"
  let ?g = "\<lparr>refs = 1, allowed_seeks = 100, number = 8, file_size = 1000, seq_off = 0,
           smallest = InternalKey (4::nat) 5 1, largest = InternalKey 6 5 1\<rparr>"
  have len: "length [?f, ?g] < 2 ^ 31" by simp
  have srt: "\<forall>i j. i \<le> j \<and> j < length [?f, ?g] \<longrightarrow>
      icmp_Compare (largest ([?f, ?g] ! i)) (largest ([?f, ?g] ! j)) \<le> 0"
    by (auto simp: less_Suc_eq nth_Cons' icmp_Compare_def ucmp_Compare_def)
  from FindFile_lower_bound [OF len srt, of "InternalKey 5 9 1"]
  show ?thesis by auto
qed

text \<open>
  C9 as stated (for every vector) fails: \<open>files.size()\<close> is truncated to 32 bits, so for a
  vector of \<open>2^32\<close> files whose largest keys are all below the key \<open>FindFile\<close> returns 0,
  not the number of files.
\<close>

theorem FindFile_wraps_counterexample:
  "FindFile (replicate (2 ^ 32) (example_file 7 1000 (InternalKey 1 9 1) (InternalKey 5 8 1)))
     (InternalKey 9 1 1) = Some 0 \<and>
   icmp_Compare (largest (example_file 7 1000 (InternalKey 1 9 1) (InternalKey 5 8 1)))
     (InternalKey 9 1 1) < 0 \<and>
   length (replicate (2 ^ 32) (example_file 7 1000 (InternalKey 1 9 1) (InternalKey 5 8 1)))
     = 2 ^ 32"
proof -
  have loop: "\<And>fs k. FindFile_loop fs k 0 0 = Some (0 :: 32 word)"
    by (subst FindFile_loop.simps) simp
  have zero: "(of_nat (2 ^ 32) :: 32 word) = 0" by simp
  have "FindFile (replicate (2 ^ 32) (example_file 7 1000 (InternalKey 1 9 1) (InternalKey 5 8 1)))
     (InternalKey 9 1 1) = Some 0"
    unfolding FindFile_def length_replicate zero loop by simp
  moreover have "icmp_Compare (largest (example_file 7 1000 (InternalKey 1 9 1) (InternalKey 5 8 1)))
     (InternalKey (9::nat) 1 1) < 0"
    by (simp add: icmp_Compare_def ucmp_Compare_def example_file_def)
  ultimately show ?thesis by (simp only: length_replicate simp_thms)
qed

section \<open>GetOverlappingInputs at level 0\<close>

declare GetOverlappingInputs_loop.simps [simp del]

lemma GOI_loop_result:
  "inputs = filter (overlaps_range ub ue) (take i fs) \<Longrightarrow>
   (\<forall>f \<in> set inputs. within_range ub ue f) \<Longrightarrow>
   GetOverlappingInputs_loop 0 fs ub ue i inputs = (res, ub', ue') \<Longrightarrow>
   res = filter (overlaps_range ub' ue') fs \<and> (\<forall>f \<in> set res. within_range ub' ue' f) \<and>
   begin_le ub' ub \<and> end_le ue ue'"
proof (induction "0::nat" fs ub ue i inputs rule: GetOverlappingInputs_loop.induct)
  case (1 fs ub ue i inputs)
  show ?case
  proof (cases "i < length fs")
    case False
    then show ?thesis using "1.prems"
      by (auto simp: GetOverlappingInputs_loop.simps [of 0 fs ub ue i] begin_le_def end_le_def
          split: option.splits)
  next
    case True
    note step = GetOverlappingInputs_loop.simps [of 0 fs ub ue i inputs]
    have tk: "take (Suc i) fs = take i fs @ [fs ! i]"
      using True by (simp add: take_Suc_conv_app_nth)
    consider (a) "before_range ub (fs ! i)"
      | (b) "\<not> before_range ub (fs ! i)" "after_range ue (fs ! i)"
      | (c) "\<not> before_range ub (fs ! i)" "\<not> after_range ue (fs ! i)" "extends_begin ub (fs ! i)"
      | (d) "\<not> before_range ub (fs ! i)" "\<not> after_range ue (fs ! i)"
            "\<not> extends_begin ub (fs ! i)" "extends_end ue (fs ! i)"
      | (e) "\<not> before_range ub (fs ! i)" "\<not> after_range ue (fs ! i)"
            "\<not> extends_begin ub (fs ! i)" "\<not> extends_end ue (fs ! i)"
      by blast
    then show ?thesis
    proof cases
      case a
      have eq: "GetOverlappingInputs_loop 0 fs ub ue (i + 1) inputs = (res, ub', ue')"
        using "1.prems"(3) True a by (simp add: step)
      have inv: "inputs = filter (overlaps_range ub ue) (take (i + 1) fs)"
        using "1.prems"(1) a by (simp add: tk overlaps_range_def)
      show ?thesis using "1.hyps"(1) [OF True a inv "1.prems"(2) eq] by simp
    next
      case b
      have eq: "GetOverlappingInputs_loop 0 fs ub ue (i + 1) inputs = (res, ub', ue')"
        using "1.prems"(3) True b by (simp add: step)
      have inv: "inputs = filter (overlaps_range ub ue) (take (i + 1) fs)"
        using "1.prems"(1) b by (simp add: tk overlaps_range_def)
      show ?thesis using "1.hyps"(2) [OF True b(1) b(2) inv "1.prems"(2) eq] by simp
    next
      case c
      have eq: "GetOverlappingInputs_loop 0 fs (Some (user_key (smallest (fs ! i)))) ue 0 []
                = (res, ub', ue')"
        using "1.prems"(3) True c by (simp add: step)
      have "res = filter (overlaps_range ub' ue') fs \<and> (\<forall>f \<in> set res. within_range ub' ue' f) \<and>
            begin_le ub' (Some (user_key (smallest (fs ! i)))) \<and> end_le ue ue'"
        using "1.hyps"(3) [OF True c(1) c(2) _ _ _ eq] c(3) by simp
      moreover have "begin_le (Some (user_key (smallest (fs ! i)))) ub"
        using c(3) by (auto simp: extends_begin_def begin_le_def ucmp_Compare_def split: option.splits if_splits)
      ultimately show ?thesis
        by (auto simp: begin_le_def split: option.splits)
    next
      case d
      have eq: "GetOverlappingInputs_loop 0 fs ub (Some (user_key (largest (fs ! i)))) 0 []
                = (res, ub', ue')"
        using "1.prems"(3) True d by (simp add: step)
      have "res = filter (overlaps_range ub' ue') fs \<and> (\<forall>f \<in> set res. within_range ub' ue' f) \<and>
            begin_le ub' ub \<and> end_le (Some (user_key (largest (fs ! i)))) ue'"
        using "1.hyps"(4) [OF True d(1) d(2) _ _ _ _ eq] d(3) d(4) by simp
      moreover have "end_le ue (Some (user_key (largest (fs ! i))))"
        using d(4) by (auto simp: extends_end_def end_le_def ucmp_Compare_def split: option.splits if_splits)
      ultimately show ?thesis
        by (auto simp: end_le_def split: option.splits)
    next
      case e
      have eq: "GetOverlappingInputs_loop 0 fs ub ue (i + 1) (inputs @ [fs ! i]) = (res, ub', ue')"
        using "1.prems"(3) True e by (simp add: step)
      have inv: "inputs @ [fs ! i] = filter (overlaps_range ub ue) (take (i + 1) fs)"
        using "1.prems"(1) e by (simp add: tk overlaps_range_def)
      have wi: "\<forall>f \<in> set (inputs @ [fs ! i]). within_range ub ue f"
        using "1.prems"(2) e by (simp add: within_range_def)
      show ?thesis using "1.hyps"(5) [OF True e(1) e(2) _ _ inv wi eq] e by simp
    qed
  qed
qed

lemma overlaps_range_mono:
  "begin_le a ub \<Longrightarrow> end_le ue b \<Longrightarrow> overlaps_range ub ue f \<Longrightarrow> overlaps_range a b f"
  by (auto simp: begin_le_def end_le_def overlaps_range_def before_range_def after_range_def
      ucmp_Compare_def split: option.splits if_splits)

lemma within_range_bounds:
  "within_range a b f \<Longrightarrow>
   begin_le a (Some (user_key (smallest f))) \<and> end_le (Some (user_key (largest f))) b"
  by (auto simp: begin_le_def end_le_def within_range_def extends_begin_def extends_end_def
      ucmp_Compare_def split: option.splits if_splits)

lemma GOI_loop_minimal:
  "closed_range fs a b \<Longrightarrow> begin_le a ub \<Longrightarrow> end_le ue b \<Longrightarrow>
   GetOverlappingInputs_loop 0 fs ub ue i inputs = (res, ub', ue') \<Longrightarrow>
   begin_le a ub' \<and> end_le ue' b"
proof (induction "0::nat" fs ub ue i inputs rule: GetOverlappingInputs_loop.induct)
  case (1 fs ub ue i inputs)
  note step = GetOverlappingInputs_loop.simps [of 0 fs ub ue i inputs]
  show ?case
  proof (cases "i < length fs")
    case False
    then show ?thesis using "1.prems" by (simp add: step)
  next
    case True
    have mem: "fs ! i \<in> set fs" using True by simp
    consider (a) "before_range ub (fs ! i)"
      | (b) "\<not> before_range ub (fs ! i)" "after_range ue (fs ! i)"
      | (c) "\<not> before_range ub (fs ! i)" "\<not> after_range ue (fs ! i)" "extends_begin ub (fs ! i)"
      | (d) "\<not> before_range ub (fs ! i)" "\<not> after_range ue (fs ! i)"
            "\<not> extends_begin ub (fs ! i)" "extends_end ue (fs ! i)"
      | (e) "\<not> before_range ub (fs ! i)" "\<not> after_range ue (fs ! i)"
            "\<not> extends_begin ub (fs ! i)" "\<not> extends_end ue (fs ! i)"
      by blast
    then show ?thesis
    proof cases
      case a
      have eq: "GetOverlappingInputs_loop 0 fs ub ue (i + 1) inputs = (res, ub', ue')"
        using "1.prems"(4) True a by (simp add: step)
      show ?thesis
        using "1.hyps"(1) [OF True a "1.prems"(1) "1.prems"(2) "1.prems"(3) eq] .
    next
      case b
      have eq: "GetOverlappingInputs_loop 0 fs ub ue (i + 1) inputs = (res, ub', ue')"
        using "1.prems"(4) True b by (simp add: step)
      show ?thesis
        using "1.hyps"(2) [OF True b(1) b(2) "1.prems"(1) "1.prems"(2) "1.prems"(3) eq] .
    next
      case c
      have eq: "GetOverlappingInputs_loop 0 fs (Some (user_key (smallest (fs ! i)))) ue 0 []
                = (res, ub', ue')"
        using "1.prems"(4) True c by (simp add: step)
      have "overlaps_range a b (fs ! i)"
        using overlaps_range_mono [OF "1.prems"(2) "1.prems"(3)] c(1) c(2)
        by (simp add: overlaps_range_def)
      then have "within_range a b (fs ! i)"
        using "1.prems"(1) mem by (simp add: closed_range_def)
      then have lo: "begin_le a (Some (user_key (smallest (fs ! i))))"
        using within_range_bounds by blast
      show ?thesis
        using "1.hyps"(3) [OF True c(1) c(2) _ "1.prems"(1) lo "1.prems"(3) eq] c(3) by simp
    next
      case d
      have eq: "GetOverlappingInputs_loop 0 fs ub (Some (user_key (largest (fs ! i)))) 0 []
                = (res, ub', ue')"
        using "1.prems"(4) True d by (simp add: step)
      have "overlaps_range a b (fs ! i)"
        using overlaps_range_mono [OF "1.prems"(2) "1.prems"(3)] d(1) d(2)
        by (simp add: overlaps_range_def)
      then have "within_range a b (fs ! i)"
        using "1.prems"(1) mem by (simp add: closed_range_def)
      then have hi: "end_le (Some (user_key (largest (fs ! i)))) b"
        using within_range_bounds by blast
      show ?thesis
        using "1.hyps"(4) [OF True d(1) d(2) _ _ "1.prems"(1) "1.prems"(2) hi eq] d(3) d(4)
        by simp
    next
      case e
      have eq: "GetOverlappingInputs_loop 0 fs ub ue (i + 1) (inputs @ [fs ! i]) = (res, ub', ue')"
        using "1.prems"(4) True e by (simp add: step)
      show ?thesis
        using "1.hyps"(5) [OF True e(1) e(2) _ _ "1.prems"(1) "1.prems"(2) "1.prems"(3) eq] e
        by simp
    qed
  qed
qed

text \<open>
  C5. At level 0, \<open>GetOverlappingInputs\<close> returns (the function is total, so it
  terminates on every input), and there is a range \<open>[lo, hi]\<close> of user keys, containing
  the query range, such that the result is exactly the list of the level-0 files that
  overlap \<open>[lo, hi]\<close>, every returned file lies within \<open>[lo, hi]\<close> (so the range is closed
  under overlap), and \<open>[lo, hi]\<close> is the least such range: it is contained in every
  closed range that contains the query range.
\<close>

theorem GetOverlappingInputs_level0_closure:
  assumes "0 < length (v_files v)"
  shows "\<exists>lo hi.
     GetOverlappingInputs v 0 begin end' = Some (filter (overlaps_range lo hi) (v_files v ! 0)) \<and>
     begin_le lo (map_option user_key begin) \<and> end_le (map_option user_key end') hi \<and>
     closed_range (v_files v ! 0) lo hi \<and>
     (\<forall>a b. begin_le a (map_option user_key begin) \<and> end_le (map_option user_key end') b \<and>
            closed_range (v_files v ! 0) a b \<longrightarrow> begin_le a lo \<and> end_le hi b)"
proof -
  obtain res lo hi where run:
    "GetOverlappingInputs_loop 0 (v_files v ! 0) (map_option user_key begin)
       (map_option user_key end') 0 [] = (res, lo, hi)"
    by (metis prod_cases3)
  have r: "res = filter (overlaps_range lo hi) (v_files v ! 0) \<and>
        (\<forall>f \<in> set res. within_range lo hi f) \<and>
        begin_le lo (map_option user_key begin) \<and> end_le (map_option user_key end') hi"
    by (rule GOI_loop_result [OF _ _ run]) simp_all
  have cl: "closed_range (v_files v ! 0) lo hi"
    using r by (auto simp: closed_range_def)
  have mn: "\<forall>a b. begin_le a (map_option user_key begin) \<and> end_le (map_option user_key end') b \<and>
            closed_range (v_files v ! 0) a b \<longrightarrow> begin_le a lo \<and> end_le hi b"
    using GOI_loop_minimal [OF _ _ _ run] by blast
  have "GetOverlappingInputs v 0 begin end' = Some res"
    using assms run by (simp add: GetOverlappingInputs_def assert_def)
  then show ?thesis using r cl mn by blast
qed

theorem GetOverlappingInputs_level0_closure_witness:
  "\<exists>lo hi.
     GetOverlappingInputs
       ((Version_new example_options)\<lparr>v_files :=
          [[example_file 7 100 (InternalKey 3 9 1) (InternalKey 5 8 1),
            example_file 8 100 (InternalKey 1 7 1) (InternalKey 4 6 1),
            example_file 9 100 (InternalKey 8 5 1) (InternalKey 9 4 1)], [], []]\<rparr>)
       0 (Some (InternalKey 5 3 1)) (Some (InternalKey 5 2 1))
     = Some (filter (overlaps_range lo hi)
          [example_file 7 100 (InternalKey 3 9 1) (InternalKey 5 8 1),
           example_file 8 100 (InternalKey 1 7 1) (InternalKey 4 6 1),
           example_file 9 100 (InternalKey 8 5 1) (InternalKey 9 4 1)]) \<and>
     begin_le lo (Some 5) \<and> end_le (Some 5) hi"
proof -
  let ?V = "(Version_new example_options)\<lparr>v_files :=
          [[example_file 7 100 (InternalKey 3 9 1) (InternalKey 5 8 1),
            example_file 8 100 (InternalKey 1 7 1) (InternalKey 4 6 1),
            example_file 9 100 (InternalKey 8 5 1) (InternalKey 9 4 1)], [], []]\<rparr>"
  have h: "0 < length (v_files ?V)" by simp
  from GetOverlappingInputs_level0_closure
         [OF h, of "Some (InternalKey 5 3 1)" "Some (InternalKey 5 2 1)"]
  obtain lo hi where
    "GetOverlappingInputs ?V 0 (Some (InternalKey 5 3 1)) (Some (InternalKey 5 2 1))
       = Some (filter (overlaps_range lo hi) (v_files ?V ! 0))"
    "begin_le lo (map_option user_key (Some (InternalKey 5 3 1)))"
    "end_le (map_option user_key (Some (InternalKey 5 2 1))) hi"
    by blast
  then show ?thesis
    by (intro exI [of _ lo] exI [of _ hi]) (simp del: filter.simps)
qed

lemma GetOverlappingInputs_level0_example:
  "GetOverlappingInputs
       ((Version_new example_options)\<lparr>v_files :=
          [[example_file 7 100 (InternalKey 3 9 1) (InternalKey 5 8 1),
            example_file 8 100 (InternalKey 1 7 1) (InternalKey 4 6 1),
            example_file 9 100 (InternalKey 8 5 1) (InternalKey 9 4 1)], [], []]\<rparr>)
       0 (Some (InternalKey 5 3 1)) (Some (InternalKey 5 2 1))
     = Some [example_file 7 100 (InternalKey 3 9 1) (InternalKey 5 8 1),
             example_file 8 100 (InternalKey 1 7 1) (InternalKey 4 6 1)]"
  by (simp add: GetOverlappingInputs_def assert_def GetOverlappingInputs_loop.simps
      before_range_def after_range_def extends_begin_def extends_end_def ucmp_Compare_def
      example_file_def)

section \<open>The seek budget of a new file\<close>

lemma seeks_sint:
  assumes "unat (sz :: 64 word) < 2 ^ 45"
  shows "sint (ucast (sz div 16384) :: 32 word) = int (unat sz div 16384)"
proof -
  have q: "unat (sz div 16384) = unat sz div 16384" by (simp add: unat_div)
  have b: "unat sz div 16384 < 2 ^ 31" using assms by simp
  have "of_nat (unat (sz div 16384)) = (ucast (sz div 16384) :: 32 word)" by simp
  then have u: "(ucast (sz div 16384) :: 32 word) = of_nat (unat sz div 16384)"
    by (simp only: q)
  show ?thesis using b
    by (simp only: u) (simp add: signed_of_nat signed_take_bit_int_eq_self)
qed

lemma Apply_new_file_allowed_seeks:
  assumes "unat (file_size f) < 2 ^ 45"
  shows "sint (allowed_seeks (Apply_new_file f)) = max 100 (int (unat (file_size f) div 16384))"
  using seeks_sint [OF assms]
  by (simp add: Apply_new_file_def Let_def word_sless_alt max_def)

lemma Apply_new_file_16384:
  "file_size f = 16384 \<Longrightarrow> allowed_seeks (Apply_new_file f) = 100"
  by (simp add: Apply_new_file_def Let_def word_sless_alt)

lemma FileSet_insert_set: "set (FileSet_insert f xs) \<subseteq> insert f (set xs)"
  by (induction xs) auto

lemma added_from_refl: "added_from ls ls"
  by (simp add: added_from_def)

lemma added_from_resize:
  "added_from ls (resize n LevelState_new ls)"
  by (auto simp: added_from_def resize_def nth_append LevelState_new_def)

lemma added_from_same_added:
  "length ls' = length ls \<Longrightarrow> (\<forall>l<length ls. added_files (ls' ! l) = added_files (ls ! l)) \<Longrightarrow>
   added_from ls0 ls \<Longrightarrow> added_from ls0 ls'"
  by (simp add: added_from_def)

lemma added_from_deleted:
  assumes "added_from ls0 ls" "Apply_deleted_file edit p ls = Some ls'"
  shows "added_from ls0 ls'"
proof (rule added_from_same_added [OF _ _ assms(1)])
  show "length ls' = length ls"
    using assms(2) by (cases p) (auto simp: Apply_deleted_file_def split: if_splits)
  show "\<forall>l<length ls. added_files (ls' ! l) = added_files (ls ! l)"
    using assms(2)
    by (cases p) (auto simp: Apply_deleted_file_def nth_list_update split: if_splits)
qed

lemma added_from_updated:
  assumes "added_from ls0 ls" "Apply_updated_file options p ls = Some ls'"
  shows "added_from ls0 ls'"
proof (rule added_from_same_added [OF _ _ assms(1)])
  show "length ls' = length ls"
    using assms(2) by (cases p) (auto simp: Apply_updated_file_def split: if_splits)
  show "\<forall>l<length ls. added_files (ls' ! l) = added_files (ls ! l)"
    using assms(2)
    by (cases p) (auto simp: Apply_updated_file_def nth_list_update split: if_splits)
qed

lemma added_from_added:
  assumes "added_from ls0 ls" "Apply_added_file edit p ls = Some ls'"
  shows "added_from ls0 ls'"
proof -
  obtain level nf where p: "p = (level, nf)" by (cases p)
  have ls': "ls' = ls[level := (ls ! level)
             \<lparr>deleted_files := deleted_files (ls ! level) - {number (Apply_new_file nf)},
              added_files := FileSet_insert (Apply_new_file nf) (added_files (ls ! level))\<rparr>]"
    and lv: "level < length ls"
    using assms(2) by (auto simp: p Apply_added_file_def Let_def split: if_splits)
  show ?thesis
    unfolding added_from_def
  proof (intro allI impI ballI)
    fix l f assume l: "l < length ls'" and f: "f \<in> set (added_files (ls' ! l))"
    show "(l < length ls0 \<and> f \<in> set (added_files (ls0 ! l))) \<or> (\<exists>g. f = Apply_new_file g)"
    proof (cases "l = level")
      case True
      then have "f \<in> set (FileSet_insert (Apply_new_file nf) (added_files (ls ! level)))"
        using f lv by (simp add: ls')
      then have "f = Apply_new_file nf \<or> f \<in> set (added_files (ls ! level))"
        using FileSet_insert_set by fastforce
      then show ?thesis using assms(1) lv True by (auto simp: added_from_def)
    next
      case False
      then have "f \<in> set (added_files (ls ! l))" "l < length ls"
        using f l by (simp_all add: ls')
      then show ?thesis using assms(1) by (auto simp: added_from_def)
    qed
  qed
qed

lemma added_from_trans_resize:
  "added_from (resize n LevelState_new ls0) ls \<Longrightarrow> added_from ls0 ls"
  unfolding added_from_def
proof (intro allI impI ballI)
  fix l f
  assume a: "\<forall>l<length ls. \<forall>f\<in>set (added_files (ls ! l)).
               l < length (resize n LevelState_new ls0) \<and>
               f \<in> set (added_files (resize n LevelState_new ls0 ! l)) \<or>
               (\<exists>g. f = Apply_new_file g)"
    and l: "l < length ls" and f: "f \<in> set (added_files (ls ! l))"
  from a l f have "l < length (resize n LevelState_new ls0) \<and>
               f \<in> set (added_files (resize n LevelState_new ls0 ! l)) \<or>
               (\<exists>g. f = Apply_new_file g)" by blast
  then show "l < length ls0 \<and> f \<in> set (added_files (ls0 ! l)) \<or> (\<exists>g. f = Apply_new_file g)"
    by (auto simp: resize_def nth_append LevelState_new_def split: if_splits)
qed

lemma Builder_Apply_added_from:
  assumes "Builder_Apply options edit (b, cp) = Some (b', cp')"
  shows "added_from (b_levels b) (b_levels b')"
proof -
  from assms obtain levels1 cp1 levels2 levels3 levels4 where
    l1: "levels1 = b_levels b \<or> levels1 = resize (ve_max_level edit + 2) LevelState_new (b_levels b)"
    and l2: "foldM (Apply_deleted_file edit) (ve_deleted_files edit) levels1 = Some levels2"
    and l3: "foldM (Apply_added_file edit) (ve_new_files edit) levels2 = Some levels3"
    and l4: "foldM (Apply_updated_file options) (ve_updated_files edit) levels3 = Some levels4"
    and b': "b' = b\<lparr>b_levels := levels4, b_truncated_key := ve_truncate_key edit\<rparr>"
    by (auto simp: Builder_Apply_def Let_def split: if_splits Option.bind_splits)
  have "added_from levels1 levels2"
    by (rule foldM_invariant [where I = "added_from levels1", OF l2 added_from_refl])
       (rule added_from_deleted)
  then have "added_from levels1 levels3"
    by (rule foldM_invariant [where I = "added_from levels1", OF l3]) (rule added_from_added)
  then have "added_from levels1 levels4"
    by (rule foldM_invariant [where I = "added_from levels1", OF l4]) (rule added_from_updated)
  then have "added_from (b_levels b) levels4"
    using l1 added_from_trans_resize by blast
  then show ?thesis by (simp add: b')
qed

lemma file_size_Apply_new_file [simp]: "file_size (Apply_new_file g) = file_size g"
  by (simp add: Apply_new_file_def Let_def)


text \<open>
  C8 (as amended). For every file added through a VersionEdit whose size is below
  \<open>2^45\<close> bytes (so that \<open>file_size / 16384\<close> fits the 32-bit signed budget), the
  descriptor that \<open>Apply\<close> puts into the added set has
  \<open>allowed_seeks = max(100, file_size / 16384)\<close>.
\<close>

theorem Apply_allowed_seeks_budget:
  assumes "Builder_Apply options edit (b, cp) = Some (b', cp')"
    and "level < length (b_levels b')"
    and "f \<in> set (added_files (b_levels b' ! level))"
    and "level < length (b_levels b) \<longrightarrow> f \<notin> set (added_files (b_levels b ! level))"
    and "unat (file_size f) < 2 ^ 45"
  shows "sint (allowed_seeks f) = max 100 (int (unat (file_size f) div 16384))"
proof -
  have "added_from (b_levels b) (b_levels b')"
    using assms(1) by (rule Builder_Apply_added_from)
  then obtain g where g: "f = Apply_new_file g"
    using assms(2,3,4) by (auto simp: added_from_def)
  then have "unat (file_size g) < 2 ^ 45" using assms(5) by simp
  then show ?thesis using Apply_new_file_allowed_seeks [of g] g by simp
qed

text \<open>
  C8 as stated fails for a file of \<open>2^45\<close> bytes: the quotient \<open>2^31\<close> is stored into the
  \<open>int\<close> member as \<open>-2^31\<close>, which is below 100, so the budget becomes 100.
\<close>

theorem Apply_allowed_seeks_counterexample:
  "Builder_Apply example_options
     (VersionEdit_new\<lparr>ve_new_files :=
        [(0, example_file 7 35184372088832 (InternalKey 1 9 1) (InternalKey 5 8 1))]\<rparr>)
     (Builder_new [[], [], []], [None, None, None])
   = Some (\<lparr>b_base = [[], [], []],
            b_levels = [\<lparr>deleted_files = {},
                         added_files = [(example_file 7 35184372088832 (InternalKey 1 9 1)
                                           (InternalKey 5 8 1))\<lparr>refs := 1, allowed_seeks := 100\<rparr>],
                         updated_files = {}\<rparr>, LevelState_new, LevelState_new],
            b_truncated_key = None\<rparr>, [None, None, None])
   \<and> max 100 (int (unat (35184372088832 :: 64 word) div 16384)) = 2147483648"
  by (simp add: Builder_Apply_def Apply_added_file_def Apply_new_file_def Builder_new_def
      LevelState_new_def VersionEdit_new_def example_options_def example_file_def
      word_sless_alt Let_def)

lemma Apply_example:
  "Builder_Apply example_options
     (VersionEdit_new\<lparr>ve_new_files :=
        [(0, example_file 7 16384 (InternalKey 1 9 1) (InternalKey 5 8 1))]\<rparr>)
     (Builder_new [[], [], []], [None, None, None])
   = Some (\<lparr>b_base = [[], [], []],
            b_levels = [\<lparr>deleted_files = {},
                         added_files = [(example_file 7 16384 (InternalKey 1 9 1)
                                           (InternalKey 5 8 1))\<lparr>refs := 1, allowed_seeks := 100\<rparr>],
                         updated_files = {}\<rparr>, LevelState_new, LevelState_new],
            b_truncated_key = None\<rparr>, [None, None, None])"
  by (simp add: Builder_Apply_def Apply_added_file_def Apply_new_file_def Builder_new_def
      LevelState_new_def VersionEdit_new_def example_options_def example_file_def
      word_sless_alt Let_def)

theorem Apply_allowed_seeks_budget_witness:
  "sint (allowed_seeks ((example_file 7 16384 (InternalKey 1 9 1) (InternalKey 5 8 1))
          \<lparr>refs := 1, allowed_seeks := 100\<rparr>))
   = max 100 (int (unat (file_size ((example_file 7 16384 (InternalKey 1 9 1) (InternalKey 5 8 1))
          \<lparr>refs := 1, allowed_seeks := 100\<rparr>)) div 16384))"
  by (rule Apply_allowed_seeks_budget [OF Apply_example, of 0])
     (simp_all add: Builder_new_def LevelState_new_def example_file_def)

section \<open>Levels above 0 are disjoint and ordered\<close>

lemma le_smallest_trans: "le_smallest a b \<Longrightarrow> le_smallest b c \<Longrightarrow> le_smallest a c"
  unfolding le_smallest_def by (rule icmp_Compare_le_trans)

lemma BySmallestKey_le: "BySmallestKey a b \<Longrightarrow> le_smallest a b"
  by (auto simp: BySmallestKey_def le_smallest_def Let_def split: if_splits)

lemma icmp_Compare_ge_flip: "0 \<le> icmp_Compare a b \<longleftrightarrow> icmp_Compare b a \<le> 0"
  by (auto simp: icmp_Compare_def ucmp_Compare_def Let_def split: if_splits)

lemma not_BySmallestKey_le: "\<not> BySmallestKey a b \<Longrightarrow> le_smallest b a"
  using icmp_Compare_ge_flip [of "smallest a" "smallest b"]
  by (auto simp: BySmallestKey_def le_smallest_def Let_def split: if_splits)

lemma file_before_le_trans: "file_before a b \<Longrightarrow> le_smallest b c \<Longrightarrow> file_before a c"
  unfolding file_before_def le_smallest_def by (rule icmp_Compare_less_le_trans)

lemma FileSet_insert_sorted:
  "sorted_wrt le_smallest xs \<Longrightarrow> sorted_wrt le_smallest (FileSet_insert f xs)"
proof (induction xs)
  case Nil
  then show ?case by simp
next
  case (Cons g gs)
  show ?case
  proof (cases "BySmallestKey f g")
    case True
    then have "le_smallest f g" by (rule BySmallestKey_le)
    then have "\<forall>y\<in>set gs. le_smallest f y"
      using Cons.prems le_smallest_trans by auto
    then show ?thesis using True Cons.prems \<open>le_smallest f g\<close> by simp
  next
    case False
    show ?thesis
    proof (cases "BySmallestKey g f")
      case True
      have "\<forall>y\<in>set (FileSet_insert f gs). le_smallest g y"
        using FileSet_insert_set [of f gs] Cons.prems BySmallestKey_le [OF True] by auto
      then show ?thesis using False True Cons by simp
    next
      case F2: False
      then show ?thesis using False Cons.prems by simp
    qed
  qed
qed

lemma set_merge_seq: "set (merge_seq base added) = set base \<union> set added"
proof (induction added arbitrary: base)
  case Nil
  then show ?case by simp
next
  case (Cons a added)
  have "set (takeWhile (\<lambda>x. \<not> BySmallestKey a x) base) \<union>
        set (dropWhile (\<lambda>x. \<not> BySmallestKey a x) base) = set base"
    by (metis set_append takeWhile_dropWhile_id)
  then show ?case using Cons by auto
qed

lemma sorted_merge_seq:
  "sorted_wrt le_smallest base \<Longrightarrow> sorted_wrt le_smallest added \<Longrightarrow>
   sorted_wrt le_smallest (merge_seq base added)"
proof (induction added arbitrary: base)
  case Nil
  then show ?case by simp
next
  case (Cons a added)
  let ?tw = "takeWhile (\<lambda>x. \<not> BySmallestKey a x) base"
  let ?dw = "dropWhile (\<lambda>x. \<not> BySmallestKey a x) base"
  have split: "base = ?tw @ ?dw" by simp
  have srt: "sorted_wrt le_smallest (?tw @ ?dw)" using Cons.prems(1) by simp
  have tw: "sorted_wrt le_smallest ?tw" and dw: "sorted_wrt le_smallest ?dw"
    and cross: "\<forall>x\<in>set ?tw. \<forall>y\<in>set ?dw. le_smallest x y"
    using srt unfolding sorted_wrt_append by blast+
  have added: "sorted_wrt le_smallest added" and a_added: "\<forall>y\<in>set added. le_smallest a y"
    using Cons.prems(2) by auto
  have tw_a: "\<forall>x\<in>set ?tw. le_smallest x a"
    using not_BySmallestKey_le by (auto dest: set_takeWhileD)
  have a_dw: "\<forall>y\<in>set ?dw. le_smallest a y"
  proof (cases ?dw)
    case Nil
    then show ?thesis by (simp only: list.set(1) ball_empty)
  next
    case (Cons d ds)
    then have "BySmallestKey a d" using hd_dropWhile [of "\<lambda>x. \<not> BySmallestKey a x" base] by auto
    then have ad: "le_smallest a d" by (rule BySmallestKey_le)
    have "\<forall>y\<in>set ds. le_smallest d y" using dw Cons by simp
    then show ?thesis using ad Cons le_smallest_trans by auto
  qed
  have rest: "sorted_wrt le_smallest (merge_seq ?dw added)"
    using Cons.IH [OF dw added] .
  have a_rest: "\<forall>y\<in>set (merge_seq ?dw added). le_smallest a y"
    using a_dw a_added by (auto simp: set_merge_seq)
  have tw_rest: "\<forall>x\<in>set ?tw. \<forall>y\<in>set (merge_seq ?dw added). le_smallest x y"
    using tw_a a_rest le_smallest_trans by blast
  show ?case
    using tw rest a_rest tw_a tw_rest by (simp add: sorted_wrt_append)
qed

lemma foldM_append:
  "foldM f (xs @ ys) s = (case foldM f xs s of None \<Rightarrow> None | Some s' \<Rightarrow> foldM f ys s')"
  by (induction xs arbitrary: s) (auto split: option.splits)

lemma SaveTo_merge_eq:
  "SaveTo_merge options b level base added out =
   foldM (MaybeAddFile options b level) (merge_seq base added) out"
  by (induction added arbitrary: base out) (auto simp: foldM_append split: option.splits)

lemma MaybeAddFile_cases:
  assumes "MaybeAddFile options b level f fs = Some fs'"
  shows "(number f \<in> deleted_files (b_levels b ! level) \<and> fs' = fs) \<or>
         (number f \<notin> deleted_files (b_levels b ! level) \<and> (\<exists>out. fs' = fs @ [out] \<and> derived f out))"
proof (cases "number f \<in> deleted_files (b_levels b ! level)")
  case True
  then show ?thesis using assms by (simp add: MaybeAddFile_def)
next
  case nd: False
  show ?thesis
  proof (cases "number f \<in> updated_files (b_levels b ! level)")
    case True
    then obtain tk where tk: "b_truncated_key b = Some tk"
      "icmp_Compare (smallest f) tk < 0" "0 \<le> icmp_Compare (largest f) tk"
      "fs' = fs @ [f\<lparr>refs := 1, smallest := tk\<rparr>]"
      using assms nd
      by (auto simp: MaybeAddFile_def split: if_splits Option.bind_splits)
    have "icmp_Compare tk (largest f) \<le> 0"
      using tk(3) by (simp add: icmp_Compare_ge_flip)
    then have "derived f (f\<lparr>refs := 1, smallest := tk\<rparr>)"
      using tk(2) by (simp add: derived_def)
    then show ?thesis using nd tk(4) by blast
  next
    case False
    then have "fs' = fs @ [f\<lparr>refs := refs f + 1\<rparr>]"
      using assms nd by (auto simp: MaybeAddFile_def split: if_splits)
    moreover have "derived f (f\<lparr>refs := refs f + 1\<rparr>)" by (simp add: derived_def)
    ultimately show ?thesis using nd by blast
  qed
qed

lemma foldM_MaybeAddFile:
  "foldM (MaybeAddFile options b level) sq out = Some out' \<Longrightarrow>
   \<exists>outs. out' = out @ outs \<and>
     list_all2 derived (filter (\<lambda>f. number f \<notin> deleted_files (b_levels b ! level)) sq) outs"
proof (induction sq arbitrary: out)
  case Nil
  then show ?case by simp
next
  case (Cons f sq)
  from Cons.prems obtain out1 where
    s1: "MaybeAddFile options b level f out = Some out1"
    and s2: "foldM (MaybeAddFile options b level) sq out1 = Some out'"
    by (auto split: option.splits)
  from Cons.IH [OF s2] obtain outs where
    outs: "out' = out1 @ outs"
      "list_all2 derived (filter (\<lambda>f. number f \<notin> deleted_files (b_levels b ! level)) sq) outs"
    by blast
  from MaybeAddFile_cases [OF s1] show ?case
  proof
    assume "number f \<in> deleted_files (b_levels b ! level) \<and> out1 = out"
    then show ?thesis using outs by auto
  next
    assume "number f \<notin> deleted_files (b_levels b ! level) \<and>
            (\<exists>w. out1 = out @ [w] \<and> derived f w)"
    then obtain o1 where "number f \<notin> deleted_files (b_levels b ! level)"
      "out1 = out @ [o1]" "derived f o1" by blast
    then show ?thesis using outs by (intro exI [of _ "o1 # outs"]) simp
  qed
qed

lemma no_overlap_Cons:
  "no_overlap (f # g # fs) \<longleftrightarrow> file_before f g \<and> no_overlap (g # fs)"
  by (simp add: file_before_def)

lemma le_smallest_refl: "le_smallest f f"
  by (simp add: le_smallest_def icmp_Compare_refl)

lemma derived_step:
  assumes "derived s1 o1" "derived s2 o2" "le_smallest s1 s2" "file_before o1 o2"
  shows "le_smallest o1 o2"
proof -
  have s2o2: "icmp_Compare (smallest s2) (smallest o2) \<le> 0"
    using assms(2) by (auto simp: derived_def icmp_Compare_refl)
  from assms(1) consider (same) "smallest o1 = smallest s1"
    | (cut) "icmp_Compare (smallest o1) (largest o1) \<le> 0"
    by (auto simp: derived_def)
  then show ?thesis
  proof cases
    case same
    have "icmp_Compare (smallest s1) (smallest o2) \<le> 0"
      using assms(3) s2o2 unfolding le_smallest_def by (rule icmp_Compare_le_trans)
    then show ?thesis using same by (simp add: le_smallest_def)
  next
    case cut
    have "icmp_Compare (smallest o1) (smallest o2) < 0"
      using cut assms(4) unfolding file_before_def by (rule icmp_Compare_le_less_trans)
    then show ?thesis by (simp add: le_smallest_def)
  qed
qed

lemma derived_ordered:
  "list_all2 derived srcs outs \<Longrightarrow> sorted_wrt le_smallest srcs \<Longrightarrow> no_overlap outs \<Longrightarrow>
   sorted_wrt le_smallest outs \<and> sorted_wrt file_before outs"
proof (induction rule: list_all2_induct)
  case Nil
  then show ?case by simp
next
  case (Cons s1 srcs o1 outs)
  show ?case
  proof (cases outs)
    case Nil
    then show ?thesis by simp
  next
    case (Cons o2 rest)
    then obtain s2 srest where srcs: "srcs = s2 # srest" and d2: "derived s2 o2"
      using Cons.hyps(2) by (auto simp: list_all2_Cons2)
    have nb: "file_before o1 o2" and no: "no_overlap outs"
      using Cons.prems(2) \<open>outs = o2 # rest\<close>
      by (auto simp: file_before_def split: if_splits)
    have ss: "sorted_wrt le_smallest srcs" and s12: "le_smallest s1 s2"
      using Cons.prems(1) srcs by simp_all
    from Cons.IH [OF ss no] have ih: "sorted_wrt le_smallest outs" "sorted_wrt file_before outs"
      by simp_all
    have o12: "le_smallest o1 o2"
      using derived_step [OF Cons.hyps(1) d2 s12 nb] .
    have o2y: "\<forall>y\<in>set outs. le_smallest o2 y"
      using ih(1) \<open>outs = o2 # rest\<close> le_smallest_refl by auto
    have "\<forall>y\<in>set outs. le_smallest o1 y"
      using o12 o2y le_smallest_trans by blast
    moreover have "\<forall>y\<in>set outs. file_before o1 y"
      using nb o2y file_before_le_trans by blast
    ultimately show ?thesis using ih by simp
  qed
qed

lemma SaveTo_level_ordered:
  assumes run: "SaveTo_level options b level vf = Some vf'"
    and empty: "vf ! level = []"
    and base: "1 \<le> level \<and> level < length (b_base b) \<longrightarrow>
               sorted_wrt le_smallest (b_base b ! level)"
    and added: "sorted_wrt le_smallest (added_files (b_levels b ! level))"
  shows "\<exists>out. vf' = vf[level := out] \<and> (1 \<le> level \<longrightarrow> level_ordered out)"
proof -
  define sq where "sq = (if level < length (b_base b)
      then merge_seq (b_base b ! level) (added_files (b_levels b ! level))
      else added_files (b_levels b ! level))"
  from run obtain out where
    out: "foldM (MaybeAddFile options b level) sq [] = Some out"
    and chk: "\<not> level > 0 \<or> no_overlap out"
    and vf': "vf' = vf[level := out]"
    by (auto simp: SaveTo_level_def SaveTo_merge_eq empty sq_def
        split: if_splits Option.bind_splits)
  from foldM_MaybeAddFile [OF out] have
    d: "list_all2 derived (filter (\<lambda>f. number f \<notin> deleted_files (b_levels b ! level)) sq) out"
    by simp
  have "1 \<le> level \<longrightarrow> level_ordered out"
  proof
    assume l1: "1 \<le> level"
    then have "no_overlap out" using chk by simp
    moreover have sq_sorted: "sorted_wrt le_smallest sq"
      using base added l1 by (auto simp: sq_def sorted_merge_seq)
    ultimately show "level_ordered out"
      using derived_ordered [OF d sorted_wrt_filter [OF sq_sorted]]
      by (simp add: level_ordered_def)
  qed
  then show ?thesis using vf' by blast
qed

lemma levels_ordered_iff:
  "levels_ordered fss \<longleftrightarrow> (\<forall>l. 1 \<le> l \<and> l < length fss \<longrightarrow> level_ordered (fss ! l))"
  by (simp add: levels_ordered_def level_ordered_def)

lemma SaveTo_levels_fold:
  "foldM (SaveTo_level options b) [k..<n] vf = Some vf' \<Longrightarrow>
   n \<le> length vf \<Longrightarrow> n \<le> length (b_levels b) \<Longrightarrow>
   added_sorted (b_levels b) \<Longrightarrow> levels_ordered (b_base b) \<Longrightarrow>
   (\<forall>l. k \<le> l \<and> l < length vf \<longrightarrow> vf ! l = []) \<Longrightarrow>
   levels_ordered vf \<Longrightarrow>
   length vf' = length vf \<and> levels_ordered vf'"
proof (induction "n - k" arbitrary: k vf)
  case 0
  then have e: "[k..<n] = []" by simp
  have "vf' = vf" using "0.prems"(1) unfolding e by simp
  then show ?case using "0.prems"(7) by simp
next
  case (Suc d)
  then have kn: "k < n" by simp
  then have upt: "[k..<n] = k # [Suc k..<n]" by (simp add: upt_conv_Cons)
  from Suc.prems(1) obtain vf1 where
    s1: "SaveTo_level options b k vf = Some vf1"
    and s2: "foldM (SaveTo_level options b) [Suc k..<n] vf1 = Some vf'"
    by (auto simp: upt split: option.splits)
  have klen: "k < length vf" using kn Suc.prems(2) by simp
  have e: "vf ! k = []" using Suc.prems(6) klen by simp
  have bs: "1 \<le> k \<and> k < length (b_base b) \<longrightarrow> sorted_wrt le_smallest (b_base b ! k)"
    using Suc.prems(5) by (simp add: levels_ordered_def)
  have ad: "sorted_wrt le_smallest (added_files (b_levels b ! k))"
    using Suc.prems(3,4) kn by (simp add: added_sorted_def)
  from SaveTo_level_ordered [OF s1 e bs ad] obtain out where
    out: "vf1 = vf[k := out]" "1 \<le> k \<longrightarrow> level_ordered out" by blast
  have len1: "length vf1 = length vf" using out(1) by simp
  have emp1: "\<forall>l. Suc k \<le> l \<and> l < length vf1 \<longrightarrow> vf1 ! l = []"
    using Suc.prems(6) out(1) by simp
  have ord1: "levels_ordered vf1"
    unfolding levels_ordered_iff
  proof (intro allI impI)
    fix l assume l: "1 \<le> l \<and> l < length vf1"
    show "level_ordered (vf1 ! l)"
    proof (cases "l = k")
      case True
      then show ?thesis using out l klen by simp
    next
      case False
      then show ?thesis using Suc.prems(7) l out(1) by (simp add: levels_ordered_iff)
    qed
  qed
  have d: "d = n - Suc k" using Suc.hyps(2) by simp
  from Suc.hyps(1) [OF d s2 _ Suc.prems(3) Suc.prems(4) Suc.prems(5) emp1 ord1]
  show ?case using len1 Suc.prems(2) by simp
qed

lemma levels_ordered_empty: "(\<forall>l<length fss. fss ! l = []) \<Longrightarrow> levels_ordered fss"
  by (simp add: levels_ordered_def)

lemma Builder_SaveTo_ordered:
  assumes "Builder_SaveTo options b vfiles = Some vf'"
    and "\<forall>l<length vfiles. vfiles ! l = []"
    and "added_sorted (b_levels b)" "levels_ordered (b_base b)"
  shows "levels_ordered vf'"
proof -
  define vf where "vf = (if length vfiles < length (b_levels b)
               then resize (length (b_levels b)) [] vfiles else vfiles)"
  from assms(1) have run: "foldM (SaveTo_level options b) [0..<length (b_levels b)] vf = Some vf'"
    by (auto simp: Builder_SaveTo_def vf_def Let_def split: if_splits Option.bind_splits)
  have emp: "\<forall>l<length vf. vf ! l = []"
    using assms(2) by (auto simp: vf_def resize_def nth_append)
  have len: "length (b_levels b) \<le> length vf"
    by (auto simp: vf_def resize_def)
  from SaveTo_levels_fold [OF run len _ assms(3) assms(4) _ levels_ordered_empty [OF emp]] emp
  show ?thesis by simp
qed

lemma added_sorted_same_added:
  "length ls' = length ls \<Longrightarrow> (\<forall>l<length ls. added_files (ls' ! l) = added_files (ls ! l)) \<Longrightarrow>
   added_sorted ls \<Longrightarrow> added_sorted ls'"
  by (simp add: added_sorted_def)

lemma added_sorted_deleted:
  assumes "added_sorted ls" "Apply_deleted_file edit p ls = Some ls'"
  shows "added_sorted ls'"
proof (rule added_sorted_same_added [OF _ _ assms(1)])
  show "length ls' = length ls"
    using assms(2) by (cases p) (auto simp: Apply_deleted_file_def split: if_splits)
  show "\<forall>l<length ls. added_files (ls' ! l) = added_files (ls ! l)"
    using assms(2)
    by (cases p) (auto simp: Apply_deleted_file_def nth_list_update split: if_splits)
qed

lemma added_sorted_updated:
  assumes "added_sorted ls" "Apply_updated_file options p ls = Some ls'"
  shows "added_sorted ls'"
proof (rule added_sorted_same_added [OF _ _ assms(1)])
  show "length ls' = length ls"
    using assms(2) by (cases p) (auto simp: Apply_updated_file_def split: if_splits)
  show "\<forall>l<length ls. added_files (ls' ! l) = added_files (ls ! l)"
    using assms(2)
    by (cases p) (auto simp: Apply_updated_file_def nth_list_update split: if_splits)
qed

lemma added_sorted_added:
  assumes "added_sorted ls" "Apply_added_file edit p ls = Some ls'"
  shows "added_sorted ls'"
proof -
  obtain level nf where p: "p = (level, nf)" by (cases p)
  have ls': "ls' = ls[level := (ls ! level)
             \<lparr>deleted_files := deleted_files (ls ! level) - {number (Apply_new_file nf)},
              added_files := FileSet_insert (Apply_new_file nf) (added_files (ls ! level))\<rparr>]"
    and lv: "level < length ls"
    using assms(2) by (auto simp: p Apply_added_file_def Let_def split: if_splits)
  show ?thesis
    unfolding added_sorted_def
  proof (intro allI impI)
    fix l assume l: "l < length ls'"
    show "sorted_wrt le_smallest (added_files (ls' ! l))"
    proof (cases "l = level")
      case True
      then show ?thesis
        using assms(1) lv by (simp add: ls' added_sorted_def FileSet_insert_sorted)
    next
      case False
      then show ?thesis using assms(1) l by (simp add: ls' added_sorted_def)
    qed
  qed
qed

lemma added_sorted_resize: "added_sorted ls \<Longrightarrow> added_sorted (resize n LevelState_new ls)"
  by (auto simp: added_sorted_def resize_def nth_append LevelState_new_def)

lemma Builder_Apply_added_sorted:
  assumes "Builder_Apply options edit (b, cp) = Some (b', cp')"
    and "added_sorted (b_levels b)"
  shows "added_sorted (b_levels b') \<and> b_base b' = b_base b"
proof -
  from assms(1) obtain levels1 cp1 levels2 levels3 levels4 where
    l1: "levels1 = b_levels b \<or> levels1 = resize (ve_max_level edit + 2) LevelState_new (b_levels b)"
    and l2: "foldM (Apply_deleted_file edit) (ve_deleted_files edit) levels1 = Some levels2"
    and l3: "foldM (Apply_added_file edit) (ve_new_files edit) levels2 = Some levels3"
    and l4: "foldM (Apply_updated_file options) (ve_updated_files edit) levels3 = Some levels4"
    and b': "b' = b\<lparr>b_levels := levels4, b_truncated_key := ve_truncate_key edit\<rparr>"
    by (auto simp: Builder_Apply_def Let_def split: if_splits Option.bind_splits)
  have "added_sorted levels1" using l1 assms(2) added_sorted_resize by blast
  then have "added_sorted levels2"
    by (rule foldM_invariant [where I = added_sorted, OF l2]) (rule added_sorted_deleted)
  then have "added_sorted levels3"
    by (rule foldM_invariant [where I = added_sorted, OF l3]) (rule added_sorted_added)
  then have "added_sorted levels4"
    by (rule foldM_invariant [where I = added_sorted, OF l4]) (rule added_sorted_updated)
  then show ?thesis by (simp add: b')
qed

lemma build_version_ordered:
  assumes "build_version options base_files cp edits = Some (vf, cp')"
    and "levels_ordered base_files"
  shows "levels_ordered vf"
proof -
  from assms(1) obtain b cp1 where
    ap: "foldM (Builder_Apply options) edits (Builder_new base_files, cp) = Some (b, cp1)"
    and sv: "Builder_SaveTo options b (v_files (Version_new options)) = Some vf"
    by (auto simp: build_version_def split: Option.bind_splits)
  have "(\<lambda>st. added_sorted (b_levels (fst st)) \<and> b_base (fst st) = base_files) (b, cp1)"
  proof (rule foldM_invariant [OF ap])
    show "added_sorted (b_levels (fst (Builder_new base_files, cp))) \<and>
          b_base (fst (Builder_new base_files, cp)) = base_files"
      by (simp add: Builder_new_def added_sorted_def LevelState_new_def)
  next
    fix x s t
    assume "added_sorted (b_levels (fst s)) \<and> b_base (fst s) = base_files"
      and "Builder_Apply options x s = Some t"
    then show "added_sorted (b_levels (fst t)) \<and> b_base (fst t) = base_files"
      using Builder_Apply_added_sorted [of options x "fst s" "snd s" "fst t" "snd t"] by simp
  qed
  then have inv: "added_sorted (b_levels b)" "b_base b = base_files" by simp_all
  have emp: "\<forall>l<length (v_files (Version_new options)). v_files (Version_new options) ! l = []"
    by (simp add: Version_new_def)
  show ?thesis
    using Builder_SaveTo_ordered [OF sv emp inv(1)] assms(2) inv(2) by simp
qed

lemma apply_rounds_ordered:
  "apply_rounds options base_files cp rounds = Some versions \<Longrightarrow> levels_ordered base_files \<Longrightarrow>
   \<forall>vf \<in> set versions. levels_ordered vf"
proof (induction rounds arbitrary: base_files cp versions)
  case Nil
  then show ?case by simp
next
  case (Cons edits rounds)
  from Cons.prems(1) obtain vf cp' vfs where
    b: "build_version options base_files cp edits = Some (vf, cp')"
    and r: "apply_rounds options vf cp' rounds = Some vfs"
    and v: "versions = vf # vfs"
    by (auto split: option.splits)
  have o: "levels_ordered vf" using build_version_ordered [OF b Cons.prems(2)] .
  from Cons.IH [OF r o] show ?case using o v by simp
qed


text \<open>
  C2. Start from the empty version and apply any sequence of edits through the builder
  (\<open>Apply\<close>, then \<open>SaveTo\<close> into a new version, round after round). Whenever the
  builder accepts the edits (no assertion of \<open>Apply\<close>, \<open>MaybeAddFile\<close> or \<open>SaveTo\<close>
  fails), every version built satisfies: for every level \<open>\<ge> 1\<close> and all indices
  \<open>i < j\<close> into \<open>files[level]\<close>, \<open>files[level][i].largest < files[level][j].smallest\<close>
  under the internal key comparator.
\<close>

theorem builder_levels_disjoint:
  assumes "apply_rounds options (v_files (Version_new options)) cp rounds = Some versions"
    and "vf \<in> set versions" and "1 \<le> level" and "level < length vf"
    and "i < j" and "j < length (vf ! level)"
  shows "icmp_Compare (largest (vf ! level ! i)) (smallest (vf ! level ! j)) < 0"
proof -
  have "levels_ordered (v_files (Version_new options))"
    by (rule levels_ordered_empty) (simp add: Version_new_def)
  then have "levels_ordered vf"
    using apply_rounds_ordered [OF assms(1)] assms(2) by blast
  then have "sorted_wrt file_before (vf ! level)"
    using assms(3,4) by (simp add: levels_ordered_def)
  then have "file_before (vf ! level ! i) (vf ! level ! j)"
    using assms(5,6) by (simp add: sorted_wrt_iff_nth_less)
  then show ?thesis by (simp add: file_before_def)
qed

lemma apply_rounds_example:
  "apply_rounds example_options (v_files (Version_new example_options)) [None, None, None]
     [[VersionEdit_new\<lparr>ve_new_files :=
         [(1, example_file 8 2000 (InternalKey 4 9 1) (InternalKey 6 8 1)),
          (1, example_file 7 1000 (InternalKey 1 9 1) (InternalKey 3 8 1))],
         ve_max_level := 1\<rparr>]]
   = Some [[[],
            [(example_file 7 1000 (InternalKey 1 9 1) (InternalKey 3 8 1))
               \<lparr>refs := 2, allowed_seeks := 100\<rparr>,
             (example_file 8 2000 (InternalKey 4 9 1) (InternalKey 6 8 1))
               \<lparr>refs := 2, allowed_seeks := 100\<rparr>],
            []]]"
  by (simp add: build_version_def Builder_Apply_def Apply_added_file_def Apply_new_file_def
      Builder_new_def LevelState_new_def VersionEdit_new_def example_options_def
      example_file_def Version_new_def Builder_SaveTo_def SaveTo_level_def MaybeAddFile_def
      BySmallestKey_def icmp_Compare_def ucmp_Compare_def word_sless_alt Let_def upt_rec numeral_3_eq_3)

theorem builder_levels_disjoint_witness:
  "icmp_Compare
     (largest ([[],
            [(example_file 7 1000 (InternalKey 1 9 1) (InternalKey 3 8 1))
               \<lparr>refs := 2, allowed_seeks := 100\<rparr>,
             (example_file 8 2000 (InternalKey 4 9 1) (InternalKey 6 8 1))
               \<lparr>refs := 2, allowed_seeks := 100\<rparr>],
            []] ! 1 ! 0))
     (smallest ([[],
            [(example_file 7 1000 (InternalKey 1 9 1) (InternalKey 3 8 1))
               \<lparr>refs := 2, allowed_seeks := 100\<rparr>,
             (example_file 8 2000 (InternalKey 4 9 1) (InternalKey 6 8 1))
               \<lparr>refs := 2, allowed_seeks := 100\<rparr>],
            []] ! 1 ! 1)) < 0"
  by (rule builder_levels_disjoint [OF apply_rounds_example]) simp_all
section \<open>The version store\<close>

lemma vget_Some_length: "vget vs a = Some v \<Longrightarrow> a < length (vs_versions vs)"
  by (simp add: vget_def split: if_splits)

lemma vget_Some_nth: "vget vs a = Some v \<Longrightarrow> vs_versions vs ! a = Some v"
  by (simp add: vget_def split: if_splits)

lemma Version_Ref_eq:
  "vget vs a = Some v \<Longrightarrow>
   Version_Ref vs a = Some (vs\<lparr>vs_versions := (vs_versions vs)[a := Some (v\<lparr>v_refs := v_refs v + 1\<rparr>)]\<rparr>)"
  by (simp add: Version_Ref_def vput_def)

lemma Version_Unref_eq:
  "vget vs a = Some v \<Longrightarrow> 1 \<le> v_refs v \<Longrightarrow>
   Version_Unref vs a =
     Some (if v_refs v = 1
           then vs\<lparr>vs_versions := (vs_versions vs)[a := None],
                   vs_dummy_versions := removeAll a (vs_dummy_versions vs)\<rparr>
           else vs\<lparr>vs_versions := (vs_versions vs)[a := Some (v\<lparr>v_refs := v_refs v - 1\<rparr>)]\<rparr>)"
  by (auto simp: Version_Unref_def vput_def delete_Version_def vget_def Let_def)

lemma Version_Unref_SomeD:
  "Version_Unref vs a = Some vs' \<Longrightarrow> \<exists>v. vget vs a = Some v \<and> 1 \<le> v_refs v"
  by (auto simp: Version_Unref_def split: Option.bind_splits if_splits)

lemma list_update_back:
  "a < length xs \<Longrightarrow> xs ! a = x \<Longrightarrow> a \<noteq> b \<Longrightarrow> xs[a := y, b := z, a := x] = xs[b := z]"
  by (metis list_update_id list_update_overwrite list_update_swap)

lemma build_files_refs:
  "build_files reorg options edit builder cp curv ver = Some (ver2, cp') \<Longrightarrow>
   v_refs ver2 = v_refs ver"
  by (auto simp: build_files_def split: Option.bind_splits if_splits prod.splits)

lemma build_on_current_frame:
  assumes run: "build_on_current reorg edit v vs = Some vs'"
    and cur: "vs_current vs = Some cur" "vget vs cur = Some cv" "1 \<le> v_refs cv"
    and v: "v \<noteq> cur"
  shows "\<exists>nv ov cp. vget vs v = Some ov \<and> v_refs nv = v_refs ov \<and>
           vs' = vs\<lparr>vs_versions := (vs_versions vs)[v := Some nv], vs_compact_pointer := cp\<rparr>"
proof -
  let ?cv1 = "cv\<lparr>v_refs := v_refs cv + 1\<rparr>"
  let ?vs1 = "vs\<lparr>vs_versions := (vs_versions vs)[cur := Some ?cv1]\<rparr>"
  have clen: "cur < length (vs_versions vs)" using cur(2) by (rule vget_Some_length)
  have ctor: "Builder_ctor vs cur = Some (?vs1, Builder_new (v_files cv))"
    using cur(2) by (simp add: Builder_ctor_def Version_Ref_eq)
  have g1: "vget ?vs1 cur = Some ?cv1" using clen by (simp add: vget_def)
  have gv: "vget ?vs1 v = vget vs v" using v by (simp add: vget_def)
  from run obtain ver ver2 cp where
    ver: "vget vs v = Some ver"
    and bf: "build_files reorg (vs_options vs) edit (Builder_new (v_files cv))
               (vs_compact_pointer vs) ?cv1 ver = Some (ver2, cp)"
    and dt: "Builder_dtor (vput (?vs1\<lparr>vs_compact_pointer := cp\<rparr>) v ver2) cur = Some vs'"
    by (auto simp: build_on_current_def cur(1) ctor g1 gv split: Option.bind_splits)
  have ver2: "v_refs ver2 = v_refs ver" using bf by (rule build_files_refs)
  let ?vs3 = "vput (?vs1\<lparr>vs_compact_pointer := cp\<rparr>) v ver2"
  have g3: "vget ?vs3 cur = Some ?cv1"
    using clen v by (simp add: vget_def vput_def)
  have "Version_Unref ?vs3 cur = Some (?vs3\<lparr>vs_versions := (vs_versions ?vs3)[cur := Some cv]\<rparr>)"
    using Version_Unref_eq [OF g3] cur(3) by simp
  then have "vs' = ?vs3\<lparr>vs_versions := (vs_versions ?vs3)[cur := Some cv]\<rparr>"
    using dt by (simp add: Builder_dtor_def)
  then have "vs' = vs\<lparr>vs_versions := (vs_versions vs)[v := Some ver2], vs_compact_pointer := cp\<rparr>"
    using list_update_back [OF clen vget_Some_nth [OF cur(2)] v [symmetric]]
    by (simp add: vput_def)
  then show ?thesis using ver ver2 by blast
qed

lemma Version_Unref_other:
  assumes "Version_Unref vs c = Some vs'"
  shows "vs_current vs' = vs_current vs"
    and "a \<noteq> c \<Longrightarrow> vget vs' a = vget vs a"
    and "length (vs_versions vs') = length (vs_versions vs)"
proof -
  from Version_Unref_SomeD [OF assms] obtain cv where cv: "vget vs c = Some cv" "1 \<le> v_refs cv"
    by blast
  note eq = Version_Unref_eq [OF cv]
  show "vs_current vs' = vs_current vs" using assms eq by (auto split: if_splits)
  show "a \<noteq> c \<Longrightarrow> vget vs' a = vget vs a"
    using assms eq by (auto simp: vget_def split: if_splits)
  show "length (vs_versions vs') = length (vs_versions vs)"
    using assms eq by (auto split: if_splits)
qed

lemma Version_Ref_SomeD: "Version_Ref vs a = Some vs' \<Longrightarrow> \<exists>v. vget vs a = Some v"
  by (auto simp: Version_Ref_def split: Option.bind_splits)

lemma AppendVersion_effect:
  assumes "AppendVersion vs v = Some vs'"
  shows "(\<exists>ver. vget vs v = Some ver \<and> v_refs ver = 0) \<and> vs_current vs \<noteq> Some v \<and>
         vs_current vs' = Some v \<and> (\<exists>ver'. vget vs' v = Some ver' \<and> v_refs ver' = 1)"
proof -
  from assms obtain ver vs1 vs2 where
    ver: "vget vs v = Some ver" "v_refs ver = 0" "Some v \<noteq> vs_current vs"
    and u: "(case vs_current vs of None \<Rightarrow> Some vs | Some c \<Rightarrow> Version_Unref vs c) = Some vs1"
    and r: "Version_Ref (vs1\<lparr>vs_current := Some v\<rparr>) v = Some vs2"
    and vs': "vs' = vs2\<lparr>vs_dummy_versions := vs_dummy_versions vs2 @ [v]\<rparr>"
    by (auto simp: AppendVersion_def split: Option.bind_splits if_splits)
  have g1: "vget vs1 v = Some ver"
  proof (cases "vs_current vs")
    case None
    then show ?thesis using u ver(1) by simp
  next
    case (Some c)
    then have "Version_Unref vs c = Some vs1" "v \<noteq> c" using u ver(3) by auto
    then show ?thesis using Version_Unref_other(2) ver(1) by metis
  qed
  then have g1': "vget (vs1\<lparr>vs_current := Some v\<rparr>) v = Some ver"
    by (simp add: vget_def split: if_splits)
  have "vs2 = (vs1\<lparr>vs_current := Some v\<rparr>)\<lparr>vs_versions :=
           (vs_versions vs1)[v := Some (ver\<lparr>v_refs := v_refs ver + 1\<rparr>)]\<rparr>"
    using r Version_Ref_eq [OF g1'] by simp
  then have "vs_current vs' = Some v" "vget vs' v = Some (ver\<lparr>v_refs := v_refs ver + 1\<rparr>)"
    using vs' vget_Some_length [OF g1] by (simp_all add: vget_def)
  then show ?thesis using ver by auto
qed

lemma current_ok_fields:
  "vs_current vs' = vs_current vs \<Longrightarrow> vs_versions vs' = vs_versions vs \<Longrightarrow>
   current_ok vs' = current_ok vs"
  by (simp add: current_ok_def vget_def)

lemma AppendVersion_current_ok: "AppendVersion vs v = Some vs' \<Longrightarrow> current_ok vs'"
  using AppendVersion_effect [of vs v vs'] by (auto simp: current_ok_def)

lemma VersionSet_new_ok:
  "\<exists>vs :: 'k VersionSet. VersionSet_new dbname options env_files = Some vs \<and> current_ok vs"
proof -
  let ?vs0 = "\<lparr>vs_options = options, vs_dbname = dbname, vs_env_files = env_files,
                  vs_next_file_number = 2, vs_manifest_file_number = 0, vs_last_sequence = 0,
                  vs_log_number = 0, vs_prev_log_number = 0, vs_descriptor_file = None,
                  vs_descriptor_log = None, vs_versions = [], vs_dummy_versions = [],
                  vs_current = None,
                  vs_compact_pointer =
                    replicate (if enable_sublevel options then 0
                               else kMaxMemCompactLevel options + 1) None\<rparr> :: 'k VersionSet"
  have "\<exists>vs. AppendVersion (snd (new_Version ?vs0)) (fst (new_Version ?vs0)) = Some vs"
    by (simp add: AppendVersion_def new_Version_def vget_def Version_new_def Version_Ref_def
        vput_def)
  then obtain vs where vs: "AppendVersion (snd (new_Version ?vs0)) (fst (new_Version ?vs0)) = Some vs"
    by blast
  moreover have "VersionSet_new dbname options env_files =
      AppendVersion (snd (new_Version ?vs0)) (fst (new_Version ?vs0))"
    by (simp only: VersionSet_new_def Let_def split_beta)
  ultimately have "VersionSet_new dbname options env_files = Some vs"
    by (simp only:)
  then show ?thesis using AppendVersion_current_ok [OF vs] by blast
qed

lemma LogAndApply_install_ok:
  assumes "LogAndApply_install s0 nm e0 v vsb = Some (s, edit', vs')" "ok s"
  shows "\<exists>vsc. AppendVersion vsb v = Some vsc \<and>
           vs' = vsc\<lparr>vs_log_number := ve_log_number edit',
                      vs_prev_log_number := ve_prev_log_number edit'\<rparr>"
  using assms
  by (auto simp: LogAndApply_install_def split: Option.bind_splits if_splits)

lemma LogAndApply_installs:
  assumes "LogAndApply reorg io edit vs = Some (s, edit', vs')" "ok s"
  shows "current_ok vs'"
proof -
  from assms obtain s0 e0 v nm vsb where
    "LogAndApply_install s0 nm e0 v vsb = Some (s, edit', vs')"
    by (auto simp: LogAndApply_def Let_def split: Option.bind_splits prod.splits)
  from LogAndApply_install_ok [OF this assms(2)]
  obtain vsc where a: "AppendVersion vsb v = Some vsc"
    and "vs' = vsc\<lparr>vs_log_number := ve_log_number edit',
                     vs_prev_log_number := ve_prev_log_number edit'\<rparr>"
    by blast
  then show ?thesis
    using AppendVersion_current_ok [OF a] current_ok_fields [of vs' vsc] by simp
qed

lemma ForeighApply_installs:
  assumes "ForeighApply reorg edit vs = Some (s, vs')" "ok s"
  shows "current_ok vs'"
proof -
  from assms obtain v vsb vsc ln pl nf lseq where a: "AppendVersion vsb v = Some vsc"
    and "vs' = vsc\<lparr>vs_log_number := ln, vs_prev_log_number := pl,
                       vs_next_file_number := nf, vs_last_sequence := lseq\<rparr>"
    by (auto simp: ForeighApply_def Let_def ok_def
        split: Option.bind_splits prod.splits if_splits)
  then show ?thesis
    using AppendVersion_current_ok [OF a] current_ok_fields [of vs' vsc] by simp
qed

lemma Finalize_refs: "Finalize options v = Some v' \<Longrightarrow> v_refs v' = v_refs v"
  by (auto simp: Finalize_def split: Option.bind_splits if_splits)

lemma LogAndApply_open_frame:
  assumes "LogAndApply_open io vs = Some (s1, vs4)"
  shows "\<exists>E F L. vs4 = vs\<lparr>vs_env_files := E, vs_descriptor_file := F, vs_descriptor_log := L\<rparr>"
    and "ok s1 \<longleftrightarrow> vs_descriptor_log vs \<noteq> None \<or>
                   (ok (io_NewWritableFile io) \<and> ok (io_WriteSnapshot io))"
proof -
  show "\<exists>E F L. vs4 = vs\<lparr>vs_env_files := E, vs_descriptor_file := F, vs_descriptor_log := L\<rparr>"
  proof (cases "vs_descriptor_log vs = None \<and> ok (io_NewWritableFile io)")
    case True
    then have "vs4 = vs\<lparr>vs_env_files := insert (DescriptorFileName (vs_dbname vs)
                          (vs_manifest_file_number vs)) (vs_env_files vs),
                      vs_descriptor_file := Some (DescriptorFileName (vs_dbname vs)
                          (vs_manifest_file_number vs)),
                      vs_descriptor_log := Some (DescriptorFileName (vs_dbname vs)
                          (vs_manifest_file_number vs))\<rparr>"
      using assms
      by (auto simp: LogAndApply_open_def Let_def split: Option.bind_splits if_splits)
    then show ?thesis by blast
  next
    case False
    then have "vs4 = vs"
      using assms
      by (auto simp: LogAndApply_open_def Let_def split: Option.bind_splits if_splits)
    then have "vs4 = vs\<lparr>vs_env_files := vs_env_files vs,
        vs_descriptor_file := vs_descriptor_file vs, vs_descriptor_log := vs_descriptor_log vs\<rparr>"
      by simp
    then show ?thesis by blast
  qed
  show "ok s1 \<longleftrightarrow> vs_descriptor_log vs \<noteq> None \<or>
                   (ok (io_NewWritableFile io) \<and> ok (io_WriteSnapshot io))"
    using assms
    by (auto simp: LogAndApply_open_def WriteSnapshot_def Let_def ok_def
        split: Option.bind_splits if_splits)
qed

lemma LogAndApply_write_frame:
  assumes "LogAndApply_write io nm s1 vs = Some (s, vs5)"
  shows "\<exists>E. vs5 = vs\<lparr>vs_env_files := E\<rparr>"
    and "ok s1 \<Longrightarrow> \<not> ok (io_AddRecord io) \<Longrightarrow> s = io_AddRecord io"
    and "ok s1 \<Longrightarrow> ok (io_AddRecord io) \<Longrightarrow> \<not> ok (io_Sync io) \<Longrightarrow> s = io_Sync io"
proof -
  have "vs5 = vs \<or> (\<exists>E. vs5 = vs\<lparr>vs_env_files := E\<rparr>)"
    using assms
    by (auto simp: LogAndApply_write_def Let_def split: Option.bind_splits if_splits)
  moreover have "vs = vs\<lparr>vs_env_files := vs_env_files vs\<rparr>" by simp
  ultimately show "\<exists>E. vs5 = vs\<lparr>vs_env_files := E\<rparr>" by metis
  show "ok s1 \<Longrightarrow> \<not> ok (io_AddRecord io) \<Longrightarrow> s = io_AddRecord io"
    using assms by (auto simp: LogAndApply_write_def Let_def split: if_splits)
  show "ok s1 \<Longrightarrow> ok (io_AddRecord io) \<Longrightarrow> \<not> ok (io_Sync io) \<Longrightarrow> s = io_Sync io"
    using assms by (auto simp: LogAndApply_write_def Let_def split: if_splits)
qed

lemma LogAndApply_install_failed:
  assumes "LogAndApply_install s0 nm e0 v vs = Some (s, edit', vs')" "\<not> ok s"
  shows "s = s0 \<and> edit' = e0 \<and>
         (\<exists>vsd. delete_Version vs v = Some vsd \<and>
            vs' = (if nm then vsd\<lparr>vs_descriptor_log := None, vs_descriptor_file := None,
                        vs_env_files := vs_env_files vsd -
                          {DescriptorFileName (vs_dbname vsd) (vs_manifest_file_number vsd)}\<rparr>
                   else vsd))"
  using assms
  by (auto simp: LogAndApply_install_def split: Option.bind_splits if_splits)

lemma delete_Version_eq:
  "delete_Version vs v = Some vsd \<Longrightarrow>
   vsd = vs\<lparr>vs_versions := (vs_versions vs)[v := None],
            vs_dummy_versions := removeAll v (vs_dummy_versions vs)\<rparr>"
  by (auto simp: delete_Version_def split: Option.bind_splits if_splits)

lemma LogAndApply_install_status:
  "LogAndApply_install s0 nm e0 v vs = Some (s, edit', vs') \<Longrightarrow> s = s0"
  by (auto simp: LogAndApply_install_def split: Option.bind_splits if_splits)

lemma LogAndApply_failure:
  assumes run: "LogAndApply reorg io edit vs = Some (s, edit', vs')"
    and inv: "current_ok vs"
  shows "(\<not> ok s \<longrightarrow> discarded vs vs') \<and>
         (opened_ok io vs \<and> \<not> ok (io_AddRecord io) \<longrightarrow> s = io_AddRecord io) \<and>
         (opened_ok io vs \<and> ok (io_AddRecord io) \<and> \<not> ok (io_Sync io) \<longrightarrow> s = io_Sync io)"
proof -
  from inv obtain cur cv where cur: "vs_current vs = Some cur" "vget vs cur = Some cv"
    "1 \<le> v_refs cv" by (auto simp: current_ok_def)
  let ?v = "length (vs_versions vs)"
  let ?vs1 = "vs\<lparr>vs_versions := vs_versions vs @ [Some (Version_new (vs_options vs))]\<rparr>"
  have clen: "cur < ?v" using cur(2) by (rule vget_Some_length)
  have nv: "new_Version vs = (?v, ?vs1)" by (simp add: new_Version_def)
  from run obtain ed vs2 ver ver' s1 vs4 s0 vs5 where
    ed: "LogAndApply_edit edit vs = Some ed"
    and boc: "build_on_current reorg ed ?v ?vs1 = Some vs2"
    and ver: "vget vs2 ?v = Some ver"
    and fin: "Finalize (vs_options vs2) ver = Some ver'"
    and op: "LogAndApply_open io (vput vs2 ?v ver') = Some (s1, vs4)"
    and wr: "LogAndApply_write io (vs_descriptor_log (vput vs2 ?v ver') = None) s1 vs4
               = Some (s0, vs5)"
    and ins: "LogAndApply_install s0 (vs_descriptor_log (vput vs2 ?v ver') = None) ed ?v vs5
               = Some (s, edit', vs')"
    by (auto simp: LogAndApply_def nv Let_def split: Option.bind_splits prod.splits)
  have c1: "vs_current ?vs1 = Some cur" using cur(1) by simp
  have g1: "vget ?vs1 cur = Some cv"
    using cur(2) clen by (simp add: vget_def nth_append)
  have ne: "?v \<noteq> cur" using clen by simp
  from build_on_current_frame [OF boc c1 g1 cur(3) ne]
  obtain nver cp where
    vs2: "vs2 = ?vs1\<lparr>vs_versions := (vs_versions ?vs1)[?v := Some nver],
                      vs_compact_pointer := cp\<rparr>"
    by blast
  have vs3: "vput vs2 ?v ver' =
      vs\<lparr>vs_versions := vs_versions vs @ [Some ver'], vs_compact_pointer := cp\<rparr>"
    by (simp add: vs2 vput_def)
  have dl: "vs_descriptor_log (vput vs2 ?v ver') = vs_descriptor_log vs"
    by (simp add: vs3)
  from LogAndApply_open_frame(1) [OF op] obtain E F L where
    vs4: "vs4 = (vput vs2 ?v ver')\<lparr>vs_env_files := E, vs_descriptor_file := F,
                                     vs_descriptor_log := L\<rparr>" by blast
  from LogAndApply_write_frame(1) [OF wr] obtain E' where
    vs5: "vs5 = vs4\<lparr>vs_env_files := E'\<rparr>" by blast
  have ss: "s = s0" using ins by (rule LogAndApply_install_status)
  have s1ok: "ok s1 \<longleftrightarrow> opened_ok io vs"
    using LogAndApply_open_frame(2) [OF op] by (simp add: dl opened_ok_def)
  have err1: "opened_ok io vs \<and> \<not> ok (io_AddRecord io) \<longrightarrow> s = io_AddRecord io"
    using LogAndApply_write_frame(2) [OF wr] s1ok ss by blast
  have err2: "opened_ok io vs \<and> ok (io_AddRecord io) \<and> \<not> ok (io_Sync io) \<longrightarrow> s = io_Sync io"
    using LogAndApply_write_frame(3) [OF wr] s1ok ss by blast
  have disc: "\<not> ok s \<longrightarrow> discarded vs vs'"
  proof
    assume nok: "\<not> ok s"
    from LogAndApply_install_failed [OF ins nok] obtain vsd where
      del: "delete_Version vs5 ?v = Some vsd"
      and vs': "vs' = (if vs_descriptor_log (vput vs2 ?v ver') = None
                 then vsd\<lparr>vs_descriptor_log := None, vs_descriptor_file := None,
                        vs_env_files := vs_env_files vsd -
                          {DescriptorFileName (vs_dbname vsd) (vs_manifest_file_number vsd)}\<rparr>
                 else vsd)"
      by blast
    have vsd: "vsd = vs5\<lparr>vs_versions := (vs_versions vs5)[?v := None],
            vs_dummy_versions := removeAll ?v (vs_dummy_versions vs5)\<rparr>"
      using del by (rule delete_Version_eq)
    show "discarded vs vs'"
      unfolding discarded_def vs' dl vsd vs5 vs4 vs3
      by (simp add: vget_def nth_append)
  qed
  show ?thesis using disc err1 err2 by blast
qed

lemma Version_Ref_other:
  assumes "Version_Ref vs c = Some vs'"
  shows "vs_current vs' = vs_current vs"
    and "a \<noteq> c \<Longrightarrow> vget vs' a = vget vs a"
proof -
  from Version_Ref_SomeD [OF assms] obtain cv where cv: "vget vs c = Some cv" by blast
  note eq = Version_Ref_eq [OF cv]
  show "vs_current vs' = vs_current vs" using assms eq by auto
  show "a \<noteq> c \<Longrightarrow> vget vs' a = vget vs a"
    using assms eq by (auto simp: vget_def)
qed

lemma Builder_ctor_current:
  "Builder_ctor vs c = Some (vs', b) \<Longrightarrow> vs_current vs' = vs_current vs"
  by (auto simp: Builder_ctor_def split: Option.bind_splits dest: Version_Ref_other(1))

lemma Builder_dtor_other:
  assumes "Builder_dtor vs c = Some vs'"
  shows "vs_current vs' = vs_current vs" and "a \<noteq> c \<Longrightarrow> vget vs' a = vget vs a"
  using assms Version_Unref_other [of vs c vs'] by (simp_all add: Builder_dtor_def)

lemma MarkFileNumberUsed_current [simp]:
  "vs_current (MarkFileNumberUsed n vs) = vs_current vs"
  by (simp add: MarkFileNumberUsed_def)

lemma Recover_candidate_current:
  assumes "Recover_candidate fl c vs = Some (st, vs')"
  shows "vs_current vs' = vs_current vs"
  using assms
  by (auto simp: Recover_candidate_def Let_def split: Option.bind_splits if_splits
      dest!: Builder_ctor_current Builder_dtor_other(1))

lemma Recover_step_current:
  assumes "Recover_step env c p rs = Some rs'"
  shows "vs_current (rs_vs rs') = vs_current (rs_vs rs)"
  using assms
  by (auto simp: Recover_step_def split: prod.splits if_splits Option.bind_splits
      dest!: Recover_candidate_current)

lemma dtor_fold_other:
  "foldM (\<lambda>c s. case c of None \<Rightarrow> Some s | Some b \<Rightarrow> Builder_dtor s cur) cands vs = Some vs' \<Longrightarrow>
   vs_current vs' = vs_current vs \<and> (a \<noteq> cur \<longrightarrow> vget vs' a = vget vs a)"
proof (induction cands arbitrary: vs)
  case Nil
  then show ?case by simp
next
  case (Cons c cands)
  from Cons.prems obtain vs1 where
    s1: "(case c of None \<Rightarrow> Some vs | Some b \<Rightarrow> Builder_dtor vs cur) = Some vs1"
    and s2: "foldM (\<lambda>c s. case c of None \<Rightarrow> Some s | Some b \<Rightarrow> Builder_dtor s cur) cands vs1
             = Some vs'"
    by (auto split: option.splits)
  have "vs_current vs1 = vs_current vs \<and> (a \<noteq> cur \<longrightarrow> vget vs1 a = vget vs a)"
    using s1 Builder_dtor_other(1) [of vs cur vs1] Builder_dtor_other(2) [of vs cur vs1 a]
    by (cases c) auto
  then show ?case using Cons.IH [OF s2] by simp
qed

lemma Recover_install_ok:
  assumes "Recover_install rs = Some (s, vs2)" "ok s"
  shows "\<exists>v ver. vs_current vs2 = Some v \<and> vget vs2 v = Some ver \<and> v_refs ver = 1 \<and>
           vs_current (rs_vs rs) \<noteq> Some v"
proof -
  from assms obtain vsa v ver' vsb where
    a: "AppendVersion (vput vsa v ver') v = Some vsb"
    and c: "vs_current vs2 = vs_current vsb" "vs_versions vs2 = vs_versions vsb"
    and d: "vs_current vsa = vs_current (rs_vs rs)"
    by (auto simp: Recover_install_def new_Version_def ok_def Let_def
        split: Option.bind_splits if_splits option.splits)
  from AppendVersion_effect [OF a] obtain ver1 where
    "vs_current (vput vsa v ver') \<noteq> Some v" "vs_current vsb = Some v"
    "vget vsb v = Some ver1" "v_refs ver1 = 1" by blast
  then show ?thesis using c d by (auto simp: vget_def vput_def split: if_splits)
qed

lemma Recover_installs:
  assumes run: "Recover env vs = Some (s, vs')" and oks: "ok s"
  shows "current_ok vs'"
proof -
  from run obtain current vs1 rs vs2 vs3 where
    cur: "vs_current vs = Some current"
    and r1: "Version_Ref vs current = Some vs1"
    and loop: "foldM (Recover_step env current) (snd (Recover_names env vs))
                \<lparr>rs_vs = vs1, rs_status = fst (Recover_names env vs),
                 rs_candidates = [None, None, None], rs_selected = None,
                 rs_final_next_file = 0, rs_final_last_seq = 0,
                 rs_final_log_number = 0, rs_final_prev_log_number = 0\<rparr> = Some rs"
    and inst: "Recover_install rs = Some (s, vs2)"
    and dt: "foldM (\<lambda>c s. case c of None \<Rightarrow> Some s | Some b \<Rightarrow> Builder_dtor s current)
              (rs_candidates rs) vs2 = Some vs3"
    and un: "Version_Unref vs3 current = Some vs'"
    by (auto simp: Recover_def split: Option.bind_splits prod.splits)
  have c1: "vs_current vs1 = Some current"
    using Version_Ref_other(1) [OF r1] cur by simp
  have "vs_current (rs_vs rs) = Some current"
    by (rule foldM_invariant [where I = "\<lambda>r. vs_current (rs_vs r) = Some current", OF loop])
       (simp_all add: c1 Recover_step_current)
  with Recover_install_ok [OF inst oks] obtain v ver where
    v: "vs_current vs2 = Some v" "vget vs2 v = Some ver" "v_refs ver = 1" "v \<noteq> current"
    by auto
  from dtor_fold_other [OF dt, of v] v have
    "vs_current vs3 = Some v" "vget vs3 v = Some ver" by simp_all
  then have "vs_current vs' = Some v" "vget vs' v = Some ver"
    using Version_Unref_other [OF un] v(4) by simp_all
  then show ?thesis using v(3) by (auto simp: current_ok_def)
qed

text \<open>Running the definitions on the example data.\<close>

lemma decimal_1: "decimal (Suc 0) = ''1''"
  by (subst decimal.simps) simp

lemma decimal_2: "decimal 2 = ''2''"
  by (subst decimal.simps) simp

lemma replicate_5: "replicate 5 x = [x, x, x, x, x]"
  by (simp add: numeral_eq_Suc)

lemma DescriptorFileName_1: "DescriptorFileName ''db'' 1 = ''db/MANIFEST-000001''"
  by (simp add: DescriptorFileName_def decimal_1 replicate_5)

lemma DescriptorFileName_2: "DescriptorFileName ''db'' 2 = ''db/MANIFEST-000002''"
  by (simp add: DescriptorFileName_def decimal_2 replicate_5)

lemmas run_store =
  Builder_ctor_def Builder_dtor_def new_Version_def vget_def vput_def Version_Ref_def
  Version_Unref_def delete_Version_def AppendVersion_def Finalize_def Finalize_score_def
  MaxBytesForLevel_def TotalFileSize_def MarkFileNumberUsed_def
  DescriptorFileName_1 DescriptorFileName_2 CurrentFileName_def
  Builder_Apply_def Apply_added_file_def Apply_new_file_def Builder_new_def
  LevelState_new_def VersionEdit_new_def example_options_def example_file_def
  Version_new_def Builder_SaveTo_def SaveTo_level_def MaybeAddFile_def BySmallestKey_def
  icmp_Compare_def ucmp_Compare_def word_sless_alt Let_def upt_rec numeral_3_eq_3
  example_vset_def example_version_def ok_def resize_def

lemmas run_LogAndApply =
  LogAndApply_def LogAndApply_edit_def LogAndApply_open_def LogAndApply_write_def
  LogAndApply_install_def build_on_current_def build_files_def WriteSnapshot_def
  SetLogNumber_def SetPrevLogNumber_def SetNextFile_def SetLastSequence_def
  example_edit_def no_reorganize_def io_all_ok_def io_append_fails_def

lemmas run_Recover =
  Recover_def Recover_names_def Recover_install_def Recover_step_def Recover_candidate_def
  Recover_check_def absorb_counters_def decode_status_def report_def
  example_manifest_edit_def example_manifest_def example_read_env_def

lemma LogAndApply_example:
  "LogAndApply no_reorganize io_all_ok example_edit example_vset =
   Some (OK,
         SetLastSequence 0 (SetNextFile 2 (SetPrevLogNumber 0 (SetLogNumber 0 example_edit))),
         example_vset\<lparr>vs_env_files := {''db/CURRENT'', ''db/MANIFEST-000001''},
           vs_descriptor_file := Some ''db/MANIFEST-000001'',
           vs_descriptor_log := Some ''db/MANIFEST-000001'',
           vs_versions := [None, Some example_version],
           vs_dummy_versions := [1], vs_current := Some 1\<rparr>)"
  by (simp add: run_LogAndApply run_store)

lemma LogAndApply_append_fails_example:
  "LogAndApply no_reorganize io_append_fails example_edit example_vset =
   Some (IOError ''disk full'',
         SetLastSequence 0 (SetNextFile 2 (SetPrevLogNumber 0 (SetLogNumber 0 example_edit))),
         example_vset\<lparr>vs_versions := vs_versions example_vset @ [None]\<rparr>)"
  by (simp add: run_LogAndApply run_store)

lemma Recover_example:
  "Recover example_read_env (example_vset\<lparr>vs_env_files := {''db/MANIFEST-000001''}\<rparr>) =
   Some (OK,
         example_vset\<lparr>vs_env_files := {''db/MANIFEST-000001''},
           vs_next_file_number := 9, vs_manifest_file_number := 8, vs_last_sequence := 10,
           vs_log_number := 3, vs_prev_log_number := 0,
           vs_versions := [None, Some example_version],
           vs_dummy_versions := [1], vs_current := Some 1\<rparr>)"
  by (simp add: run_Recover run_store)

lemma current_ok_example: "current_ok example_vset"
  by (simp add: current_ok_def vget_def example_vset_def)

text \<open>
  C10. The constructor leaves a current version that exists and has a reference count of
  at least 1. \<open>AppendVersion\<close> returns only for a version with \<open>refs == 0\<close> that is not the
  current one, and leaves it current with \<open>refs == 1\<close>. After \<open>LogAndApply\<close>,
  \<open>ForeighApply\<close> and \<open>Recover\<close> have installed a version (status ok) the current version
  exists with a reference count of at least 1; for \<open>LogAndApply\<close> and \<open>ForeighApply\<close> the
  same holds after a failed call that started from such a state.
\<close>

theorem current_version_referenced:
  "(\<exists>vs0 :: 'k VersionSet. VersionSet_new dbname options env_files = Some vs0 \<and> current_ok vs0) \<and>
   (AppendVersion (vsa :: 'k VersionSet) v = Some vsa' \<longrightarrow>
      (\<exists>ver. vget vsa v = Some ver \<and> v_refs ver = 0) \<and> vs_current vsa \<noteq> Some v \<and>
      vs_current vsa' = Some v \<and> (\<exists>ver'. vget vsa' v = Some ver' \<and> v_refs ver' = 1)) \<and>
   (LogAndApply reorg io edit (vs1 :: 'k::linorder VersionSet) = Some (s1, edit1, vs1') \<and>
      (ok s1 \<or> current_ok vs1) \<longrightarrow> current_ok vs1') \<and>
   (ForeighApply reorg edit2 (vs2 :: 'k VersionSet) = Some (s2, vs2') \<and>
      (ok s2 \<or> current_ok vs2) \<longrightarrow> current_ok vs2') \<and>
   (Recover env (vs3 :: 'k VersionSet) = Some (s3, vs3') \<and> ok s3 \<longrightarrow> current_ok vs3')"
proof (intro conjI impI)
  show "\<exists>vs0 :: 'k VersionSet. VersionSet_new dbname options env_files = Some vs0 \<and> current_ok vs0"
    by (rule VersionSet_new_ok)
next
  assume "AppendVersion vsa v = Some vsa'"
  from AppendVersion_effect [OF this]
  show "\<exists>ver. vget vsa v = Some ver \<and> v_refs ver = 0" "vs_current vsa \<noteq> Some v"
    "vs_current vsa' = Some v" "\<exists>ver'. vget vsa' v = Some ver' \<and> v_refs ver' = 1"
    by blast+
next
  assume a: "LogAndApply reorg io edit vs1 = Some (s1, edit1, vs1') \<and> (ok s1 \<or> current_ok vs1)"
  show "current_ok vs1'"
  proof (cases "ok s1")
    case True
    then show ?thesis using a LogAndApply_installs by blast
  next
    case False
    then have inv: "current_ok vs1" using a by blast
    then have "discarded vs1 vs1'"
      using LogAndApply_failure [of reorg io edit vs1 s1 edit1 vs1'] a False by blast
    then show ?thesis
      using inv by (auto simp: discarded_def current_ok_def dest: vget_Some_length)
  qed
next
  assume a: "ForeighApply reorg edit2 vs2 = Some (s2, vs2') \<and> (ok s2 \<or> current_ok vs2)"
  show "current_ok vs2'"
  proof (cases "ok s2")
    case True
    then show ?thesis using a ForeighApply_installs by blast
  next
    case False
    then have "vs2' = vs2"
      using a by (auto simp: ForeighApply_def Let_def ok_def
          split: if_splits Option.bind_splits prod.splits)
    then show ?thesis using a False by blast
  qed
next
  assume "Recover env vs3 = Some (s3, vs3') \<and> ok s3"
  then show "current_ok vs3'" using Recover_installs by blast
qed

theorem current_version_referenced_witness:
  "current_ok (example_vset\<lparr>vs_env_files := {''db/CURRENT'', ''db/MANIFEST-000001''},
           vs_descriptor_file := Some ''db/MANIFEST-000001'',
           vs_descriptor_log := Some ''db/MANIFEST-000001'',
           vs_versions := [None, Some example_version],
           vs_dummy_versions := [1], vs_current := Some 1\<rparr>) \<and>
   current_ok (example_vset\<lparr>vs_env_files := {''db/MANIFEST-000001''},
           vs_next_file_number := 9, vs_manifest_file_number := 8, vs_last_sequence := 10,
           vs_log_number := 3, vs_prev_log_number := 0,
           vs_versions := [None, Some example_version],
           vs_dummy_versions := [1], vs_current := Some 1\<rparr>)"
proof -
  have ok: "ok OK" by (simp add: ok_def)
  note t = current_version_referenced
    [where reorg = no_reorganize and io = io_all_ok and edit = example_edit
       and ?vs1.0 = example_vset and ?s1.0 = OK and env = example_read_env
       and ?vs3.0 = "example_vset\<lparr>vs_env_files := {''db/MANIFEST-000001''}\<rparr>" and ?s3.0 = OK]
  show ?thesis
    using t LogAndApply_example Recover_example ok by blast
qed

text \<open>
  C1. If the append of the edit to the MANIFEST or the \<open>Sync\<close> after it fails, then
  \<open>LogAndApply\<close> returns that error, and the state is as \<open>discarded\<close> says: the current
  version and every version present before the call are unchanged, the version built for
  the edit is deleted (it was never current), \<open>log_number\<close>, \<open>prev_log_number\<close>,
  \<open>next_file_number\<close> and \<open>last_sequence\<close> are unchanged, and when the call had to create a
  new MANIFEST that file is deleted and \<open>descriptor_log_\<close> and \<open>descriptor_file_\<close> are
  closed.
\<close>

theorem LogAndApply_manifest_write_failure:
  assumes "LogAndApply reorg io edit vs = Some (s, edit', vs')"
    and "current_ok vs"
    and "opened_ok io vs"
    and "\<not> ok (io_AddRecord io) \<or> \<not> ok (io_Sync io)"
  shows "s = (if ok (io_AddRecord io) then io_Sync io else io_AddRecord io) \<and> \<not> ok s \<and>
         discarded vs vs'"
proof -
  note f = LogAndApply_failure [OF assms(1,2)]
  have s: "s = (if ok (io_AddRecord io) then io_Sync io else io_AddRecord io)"
    using f assms(3,4) by auto
  then have "\<not> ok s" using assms(4) by auto
  then show ?thesis using s f by blast
qed

theorem LogAndApply_manifest_write_failure_witness:
  "IOError ''disk full'' =
     (if ok (io_AddRecord io_append_fails) then io_Sync io_append_fails
      else io_AddRecord io_append_fails) \<and>
   \<not> ok (IOError ''disk full'') \<and>
   discarded example_vset (example_vset\<lparr>vs_versions := vs_versions example_vset @ [None]\<rparr>)"
proof (rule LogAndApply_manifest_write_failure [OF LogAndApply_append_fails_example])
  show "current_ok example_vset" by (rule current_ok_example)
  show "opened_ok io_append_fails example_vset"
    by (simp add: opened_ok_def io_append_fails_def ok_def)
  show "\<not> ok (io_AddRecord io_append_fails) \<or> \<not> ok (io_Sync io_append_fails)"
    by (simp add: io_append_fails_def ok_def)
qed

section \<open>The counters that a MANIFEST must supply\<close>

lemma absorb_counters_flags [simp]:
  "sc_s (absorb_counters edit st) = sc_s st"
  "sc_have_next_file (absorb_counters edit st) \<longleftrightarrow>
     sc_have_next_file st \<or> ve_has_next_file_number edit"
  "sc_have_log_number (absorb_counters edit st) \<longleftrightarrow>
     sc_have_log_number st \<or> ve_has_log_number edit"
  "sc_have_last_sequence (absorb_counters edit st) \<longleftrightarrow>
     sc_have_last_sequence st \<or> ve_has_last_sequence edit"
  "sc_have_prev_log_number (absorb_counters edit st) \<longleftrightarrow>
     sc_have_prev_log_number st \<or> ve_has_prev_log_number edit"
  by (simp_all add: absorb_counters_def)

lemma Recover_scan_well_read:
  "Recover_scan options rs None st0 = Some st \<Longrightarrow> ok (sc_s st0) \<Longrightarrow>
   (\<forall>r \<in> set rs. lr_report r = None \<and> ok (lr_decode r) \<and>
        (ve_has_comparator (lr_edit r) \<longrightarrow> ve_comparator (lr_edit r) = comparator_name options)) \<Longrightarrow>
   ok (sc_s st) \<and>
   (sc_have_next_file st \<longleftrightarrow>
      sc_have_next_file st0 \<or> (\<exists>r \<in> set rs. ve_has_next_file_number (lr_edit r))) \<and>
   (sc_have_log_number st \<longleftrightarrow>
      sc_have_log_number st0 \<or> (\<exists>r \<in> set rs. ve_has_log_number (lr_edit r))) \<and>
   (sc_have_last_sequence st \<longleftrightarrow>
      sc_have_last_sequence st0 \<or> (\<exists>r \<in> set rs. ve_has_last_sequence (lr_edit r))) \<and>
   (sc_have_prev_log_number st \<longleftrightarrow>
      sc_have_prev_log_number st0 \<or> (\<exists>r \<in> set rs. ve_has_prev_log_number (lr_edit r)))"
proof (induction rs arbitrary: st0)
  case Nil
  then show ?case by (auto simp: report_def)
next
  case (Cons r rs)
  have r: "lr_report r = None" "ok (lr_decode r)"
    "ve_has_comparator (lr_edit r) \<longrightarrow> ve_comparator (lr_edit r) = comparator_name options"
    using Cons.prems(3) by simp_all
  have ds: "decode_status options r = lr_decode r"
    using r by (auto simp: decode_status_def)
  from Cons.prems(1,2) r obtain b cp where
    step: "Recover_scan options rs None
             (absorb_counters (lr_edit r)
                (st0\<lparr>sc_s := lr_decode r, sc_builder := b, sc_compact_pointer := cp\<rparr>)) = Some st"
    by (auto simp: report_def ds split: option.splits if_splits)
  have rest: "\<forall>r \<in> set rs. lr_report r = None \<and> ok (lr_decode r) \<and>
        (ve_has_comparator (lr_edit r) \<longrightarrow> ve_comparator (lr_edit r) = comparator_name options)"
    using Cons.prems(3) by simp
  have ok1: "ok (sc_s (absorb_counters (lr_edit r)
                (st0\<lparr>sc_s := lr_decode r, sc_builder := b, sc_compact_pointer := cp\<rparr>)))"
    using r(2) by simp
  from Cons.IH [OF step ok1 rest] show ?case by auto
qed

lemma Recover_check_status:
  "ok (sc_s st) \<Longrightarrow>
   (ok (sc_s (Recover_check st)) \<longleftrightarrow>
      sc_have_next_file st \<and> sc_have_log_number st \<and> sc_have_last_sequence st) \<and>
   (\<not> ok (sc_s (Recover_check st)) \<longrightarrow> (\<exists>msg. sc_s (Recover_check st) = Corruption msg)) \<and>
   (\<not> sc_have_prev_log_number st \<longrightarrow> sc_prev_log_number (Recover_check st) = 0)"
  by (simp add: Recover_check_def ok_def)

lemma Recover_check_flags [simp]:
  "sc_have_next_file (Recover_check st) = sc_have_next_file st"
  "sc_have_log_number (Recover_check st) = sc_have_log_number st"
  "sc_have_last_sequence (Recover_check st) = sc_have_last_sequence st"
  "sc_have_prev_log_number (Recover_check st) = sc_have_prev_log_number st"
  by (simp_all add: Recover_check_def)


text \<open>
  C3 (as amended). A candidate whose records were all read and decoded is kept exactly
  when its edits supplied \<open>next_file_number\<close>, \<open>log_number\<close> and \<open>last_sequence\<close>; a
  candidate that lacks one of these three is rejected with a Corruption status. A missing
  \<open>prev_log_number\<close> does not reject the candidate: it is taken as 0.
\<close>

theorem Recover_candidate_required_counters:
  assumes run: "Recover_candidate fl current vs = Some (st, vs')"
    and wr: "well_read (vs_options vs) fl"
  shows "(ok (sc_s st) \<longleftrightarrow>
            (\<exists>r \<in> set (mf_records fl). ve_has_next_file_number (lr_edit r)) \<and>
            (\<exists>r \<in> set (mf_records fl). ve_has_log_number (lr_edit r)) \<and>
            (\<exists>r \<in> set (mf_records fl). ve_has_last_sequence (lr_edit r))) \<and>
         (\<not> ok (sc_s st) \<longrightarrow> (\<exists>msg. sc_s st = Corruption msg)) \<and>
         ((\<forall>r \<in> set (mf_records fl). \<not> ve_has_prev_log_number (lr_edit r)) \<longrightarrow>
            sc_prev_log_number st = 0)"
proof -
  from run obtain vs1 builder st0 where
    ctor: "Builder_ctor vs current = Some (vs1, builder)"
    and scan: "Recover_scan (vs_options vs1) (mf_records fl) (mf_eof_report fl)
            \<lparr>sc_s = OK, sc_builder = builder, sc_compact_pointer = vs_compact_pointer vs1,
             sc_have_log_number = False, sc_have_prev_log_number = False,
             sc_have_next_file = False, sc_have_last_sequence = False,
             sc_next_file = 0, sc_last_seq = 0, sc_log_number = 0, sc_prev_log_number = 0\<rparr>
            = Some st0"
    and st: "ok (sc_s st0) \<longrightarrow> st = Recover_check st0" "\<not> ok (sc_s st0) \<longrightarrow> st = st0"
    by (auto simp: Recover_candidate_def Let_def split: Option.bind_splits if_splits)
  have opts: "vs_options vs1 = vs_options vs"
    using ctor
    by (auto simp: Builder_ctor_def Version_Ref_def vput_def split: Option.bind_splits)
  have eof: "mf_eof_report fl = None" using wr by (simp add: well_read_def)
  from Recover_scan_well_read [OF scan [unfolded eof opts]] wr
  have s0: "ok (sc_s st0)"
    and flags: "sc_have_next_file st0 \<longleftrightarrow> (\<exists>r \<in> set (mf_records fl). ve_has_next_file_number (lr_edit r))"
      "sc_have_log_number st0 \<longleftrightarrow> (\<exists>r \<in> set (mf_records fl). ve_has_log_number (lr_edit r))"
      "sc_have_last_sequence st0 \<longleftrightarrow> (\<exists>r \<in> set (mf_records fl). ve_has_last_sequence (lr_edit r))"
      "sc_have_prev_log_number st0 \<longleftrightarrow> (\<exists>r \<in> set (mf_records fl). ve_has_prev_log_number (lr_edit r))"
    by (simp_all add: well_read_def ok_def)
  have "st = Recover_check st0" using st s0 by simp
  then show ?thesis using Recover_check_status [OF s0] flags by auto
qed

text \<open>
  C3 as stated fails: a MANIFEST whose only edit carries no \<open>prev_log_number\<close> is
  recovered with status ok, and its version becomes the current one.
\<close>

theorem Recover_required_counters_counterexample:
  "Recover example_read_env (example_vset\<lparr>vs_env_files := {''db/MANIFEST-000001''}\<rparr>) =
   Some (OK,
         example_vset\<lparr>vs_env_files := {''db/MANIFEST-000001''},
           vs_next_file_number := 9, vs_manifest_file_number := 8, vs_last_sequence := 10,
           vs_log_number := 3, vs_prev_log_number := 0,
           vs_versions := [None, Some example_version],
           vs_dummy_versions := [1], vs_current := Some 1\<rparr>) \<and>
   \<not> ve_has_prev_log_number example_manifest_edit"
  by (simp add: run_Recover run_store)

lemma Recover_candidate_example:
  "Recover_candidate example_manifest 0 example_vset =
   Some (\<lparr>sc_s = OK,
           sc_builder = \<lparr>b_base = [[], [], []],
              b_levels = [\<lparr>deleted_files = {},
                  added_files = [(example_file 7 1000 (InternalKey 1 9 1) (InternalKey 5 8 1))
                                   \<lparr>refs := 1, allowed_seeks := 100\<rparr>],
                  updated_files = {}\<rparr>, LevelState_new, LevelState_new],
              b_truncated_key = None\<rparr>,
           sc_compact_pointer = [None, None, None],
           sc_have_log_number = True, sc_have_prev_log_number = False,
           sc_have_next_file = True, sc_have_last_sequence = True,
           sc_next_file = 8, sc_last_seq = 10, sc_log_number = 3, sc_prev_log_number = 0\<rparr>,
         example_vset\<lparr>vs_next_file_number := 4,
           vs_versions := [Some ((Version_new example_options)\<lparr>v_refs := 2\<rparr>)]\<rparr>)"
  by (simp add: run_Recover run_store)

theorem Recover_candidate_required_counters_witness:
  "ok OK \<and> sc_prev_log_number
     \<lparr>sc_s = OK,
           sc_builder = \<lparr>b_base = [[], [], []],
              b_levels = [\<lparr>deleted_files = {},
                  added_files = [(example_file 7 1000 (InternalKey 1 9 1) (InternalKey 5 8 1))
                                   \<lparr>refs := 1, allowed_seeks := 100\<rparr>],
                  updated_files = {}\<rparr>, LevelState_new, LevelState_new],
              b_truncated_key = None\<rparr>,
           sc_compact_pointer = [None, None, None],
           sc_have_log_number = True, sc_have_prev_log_number = False,
           sc_have_next_file = True, sc_have_last_sequence = True,
           sc_next_file = 8, sc_last_seq = 10, sc_log_number = 3,
           sc_prev_log_number = (0 :: 64 word)\<rparr> = 0"
proof -
  have wr: "well_read (vs_options example_vset) example_manifest"
    by (simp add: well_read_def example_manifest_def example_manifest_edit_def
        VersionEdit_new_def ok_def)
  from Recover_candidate_required_counters [OF Recover_candidate_example wr]
  show ?thesis
    by (simp add: example_manifest_def example_manifest_edit_def ok_def)
qed

section \<open>The compaction planner: proofs\<close>

lemma Version_Ref_frame:
  assumes "Version_Ref vs a = Some vs'"
  shows "vs_current vs' = vs_current vs" "vs_options vs' = vs_options vs"
    "vs_compact_pointer vs' = vs_compact_pointer vs"
    "\<And>b v. vget vs b = Some v \<Longrightarrow> \<exists>v'. vget vs' b = Some v' \<and> v_files v' = v_files v"
  using assms
  by (auto simp: Version_Ref_def vput_def vget_def nth_list_update
      split: Option.bind_splits if_splits)

lemma Compaction_new_shape:
  assumes "Compaction_new options level vs = Some (c, vs')" "\<not> enable_sublevel options"
  shows "c_inputs c = [[], []]" "c_options c = options" "c_level c = level"
    "c_max_grand_parent_overlap_bytes c = MaxGrandParentOverlapBytes options"
    "c_grandparents c = []"
    "\<exists>a. vs_current vs = Some a \<and> Version_Ref vs a = Some vs'"
  using assms
  by (auto simp: Compaction_new_def numeral_2_eq_2 split: Option.bind_splits if_splits)

lemma Compaction_new_total:
  assumes "vs_current vs = Some a" "vget vs a = Some cur" "\<not> enable_sublevel options"
  shows "\<exists>c vs'. Compaction_new options level vs = Some (c, vs')"
  using assms by (simp add: Compaction_new_def Version_Ref_def)

lemma push_input_frame:
  assumes "push_input which f c = Some c'"
  shows "c_options c' = c_options c" "c_level c' = c_level c"
    "c_max_grand_parent_overlap_bytes c' = c_max_grand_parent_overlap_bytes c"
    "c_grandparents c' = c_grandparents c"
    "c_inputs c' = (c_inputs c)[which := c_inputs c ! which @ [f]]"
  using assms by (auto simp: push_input_def split: Option.bind_splits if_splits)

lemma set_input_frame:
  assumes "set_input which fs c = Some c'"
  shows "c_options c' = c_options c" "c_level c' = c_level c"
    "c_max_grand_parent_overlap_bytes c' = c_max_grand_parent_overlap_bytes c"
    "c_grandparents c' = c_grandparents c"
    "c_inputs c' = (c_inputs c)[which := fs]" "which < length (c_inputs c)"
  using assms by (auto simp: set_input_def split: Option.bind_splits if_splits)

lemma SetupOtherInputs_expand_cases:
  assumes "SetupOtherInputs_expand options cur level (sm, lg, in0, in1, s, l) =
           Some (sm', lg', in0', in1', s', l')"
  shows "(in0' = in0 \<and> in1' = in1) \<or>
         (length in0 < length in0' \<and> length in1' = length in1 \<and>
          GetOverlappingInputs cur level (Some s) (Some l) = Some in0' \<and>
          TotalFileSize in1 + TotalFileSize in0' <s ExpandedCompactionByteSizeLimit options)"
  using assms
  by (auto simp: SetupOtherInputs_expand_def Let_def split: Option.bind_splits if_splits)

lemma SetupOtherInputs_frame:
  assumes "SetupOtherInputs c vs = Some (c', vs')"
  shows "c_options c' = c_options c" "c_level c' = c_level c"
    "c_max_grand_parent_overlap_bytes c' = c_max_grand_parent_overlap_bytes c"
    "length (c_inputs c') = length (c_inputs c)"
    "vs_current vs' = vs_current vs" "vs_options vs' = vs_options vs"
  using assms
  by (auto simp: SetupOtherInputs_def Let_def set_input_def
      split: Option.bind_splits if_splits prod.splits)

lemma PickCompaction_first_find:
  "PickCompaction_first cp fs =
   find (\<lambda>f. case cp of None \<Rightarrow> True | Some p \<Rightarrow> icmp_Compare (largest f) p > 0) fs"
  by (induction fs) auto

lemma CompactRange_truncate_prefix:
  "CompactRange_truncate limit tot fs =
     take (length (CompactRange_truncate limit tot fs)) fs \<and>
   (fs \<noteq> [] \<longrightarrow> CompactRange_truncate limit tot fs \<noteq> []) \<and>
   (\<forall>n. 0 < n \<and> n < length (CompactRange_truncate limit tot fs) \<longrightarrow>
        foldl (\<lambda>sum f. sum + file_size f) tot (take n fs) < limit) \<and>
   (length (CompactRange_truncate limit tot fs) < length fs \<longrightarrow>
      limit \<le> foldl (\<lambda>sum f. sum + file_size f) tot (CompactRange_truncate limit tot fs))"
proof (induction fs arbitrary: tot)
  case Nil
  show ?case by simp
next
  case (Cons f fs)
  show ?case
  proof (cases "limit \<le> tot + file_size f")
    case True
    then show ?thesis by simp
  next
    case False
    note IH = Cons.IH [of "tot + file_size f"]
    have small: "tot + file_size f < limit" using False by simp
    have "\<And>n. 0 < n \<Longrightarrow> n < Suc (length (CompactRange_truncate limit (tot + file_size f) fs)) \<Longrightarrow>
        foldl (\<lambda>sum f. sum + file_size f) tot (take n (f # fs)) < limit"
    proof -
      fix n
      assume n: "0 < n" "n < Suc (length (CompactRange_truncate limit (tot + file_size f) fs))"
      then obtain m where m: "n = Suc m" by (cases n) auto
      show "foldl (\<lambda>sum f. sum + file_size f) tot (take n (f # fs)) < limit"
      proof (cases m)
        case 0
        then show ?thesis using m small by simp
      next
        case (Suc k)
        then show ?thesis using m n IH by simp
      qed
    qed
    then show ?thesis using False IH by simp
  qed
qed

lemma CompactRange_truncate_capped:
  "capped_prefix limit inputs (CompactRange_truncate limit 0 inputs)"
  unfolding capped_prefix_def TotalFileSize_def
  using CompactRange_truncate_prefix [of limit 0 inputs] by blast

lemma SetupOtherInputs_inputs:
  assumes "SetupOtherInputs c vs = Some (c', vs')" "vs_current vs = Some a" "vget vs a = Some cur"
    "length (c_inputs c) = 2"
  shows "\<exists>range0 in1.
           GetRange (c_inputs c ! 0) = Some range0 \<and>
           GetOverlappingInputs cur (nat (c_level c) + 1) (Some (fst range0)) (Some (snd range0))
             = Some in1 \<and>
           (c_inputs c' ! 0 = c_inputs c ! 0 \<or>
            length (c_inputs c ! 0) < length (c_inputs c' ! 0) \<and>
            TotalFileSize in1 + TotalFileSize (c_inputs c' ! 0)
              <s ExpandedCompactionByteSizeLimit (vs_options vs))"
  using assms
  by (auto simp: SetupOtherInputs_def Let_def set_input_def get_input_def
      dest!: SetupOtherInputs_expand_cases
      split: Option.bind_splits if_splits prod.splits)

lemma CompactRange_result:
  assumes run: "CompactRange level begin end' vs = Some (Some c, vs')"
    and cur: "vs_current vs = Some a" "vget vs a = Some cur"
  obtains inputs c0 vs0 c1 where
    "\<not> enable_sublevel (vs_options vs)"
    "GetOverlappingInputs cur (nat level) begin end' = Some inputs" "inputs \<noteq> []"
    "Compaction_new (vs_options vs) level vs = Some (c0, vs0)"
    "set_input 0 (if level > 0
                  then CompactRange_truncate (MaxFileSizeForLevel (vs_options vs) (nat level)) 0 inputs
                  else inputs) c0 = Some c1"
    "SetupOtherInputs c1 vs0 = Some (c, vs')"
  using run cur
  by (auto simp: CompactRange_def Let_def split: Option.bind_splits if_splits)

lemma TotalFileSize_of_nat:
  "foldl (\<lambda>sum f. sum + file_size f) tot fs =
   tot + of_nat (sum_list (map (\<lambda>f. unat (file_size f)) fs))"
  by (induction fs arbitrary: tot) (simp_all add: algebra_simps)

lemma TotalFileSize_sint:
  assumes "sum_list (map (\<lambda>f. unat (file_size f)) fs) < 2 ^ 63"
  shows "sint (TotalFileSize fs) = int (sum_list (map (\<lambda>f. unat (file_size f)) fs))"
proof -
  have "TotalFileSize fs = (of_nat (sum_list (map (\<lambda>f. unat (file_size f)) fs)) :: 64 word)"
    by (simp add: TotalFileSize_def TotalFileSize_of_nat)
  moreover have "sint (of_nat (sum_list (map (\<lambda>f. unat (file_size f)) fs)) :: 64 word) =
      int (sum_list (map (\<lambda>f. unat (file_size f)) fs))"
    using assms by (simp add: signed_of_nat signed_take_bit_int_eq_self)
  ultimately show ?thesis by simp
qed

lemma PickCompaction_inputs_frame:
  assumes "PickCompaction_inputs level c vs = Some (c', vs')" "\<not> enable_sublevel (vs_options vs)"
  shows "c_options c' = c_options c" "c_level c' = c_level c"
    "c_max_grand_parent_overlap_bytes c' = c_max_grand_parent_overlap_bytes c"
    "length (c_inputs c') = length (c_inputs c)"
  using assms
  by (auto simp: PickCompaction_inputs_def set_input_def
      dest: SetupOtherInputs_frame split: Option.bind_splits if_splits)

lemma PickCompaction_size_result:
  assumes "PickCompaction_size sub vs cur = Some (level, c, vs')" "\<not> enable_sublevel (vs_options vs)"
  obtains c0 f where "level = v_compaction_level cur" "0 \<le> level"
    "nat level < length (v_files cur)" "length (v_files cur) = length (vs_compact_pointer vs)"
    "Compaction_new (vs_options vs) level vs = Some (c0, vs')"
    "push_input 0 f c0 = Some c"
    "PickCompaction_first (vs_compact_pointer vs ! nat level) (v_files cur ! nat level) = Some f \<or>
     PickCompaction_first (vs_compact_pointer vs ! nat level) (v_files cur ! nat level) = None \<and>
     v_files cur ! nat level \<noteq> [] \<and> f = v_files cur ! nat level ! 0"
  using assms
  by (auto simp: PickCompaction_size_def Let_def
      split: Option.bind_splits if_splits option.splits)

lemma PickCompaction_seek_result:
  assumes "PickCompaction_seek vs cur = Some (level, c, vs')"
  obtains c0 f where "level = v_file_to_compact_level cur"
    "Compaction_new (vs_options vs) level vs = Some (c0, vs')"
    "v_file_to_compact cur = Some f" "push_input 0 f c0 = Some c"
  using assms
  by (auto simp: PickCompaction_seek_def Let_def split: Option.bind_splits)

lemma seeded_shape:
  assumes nw: "Compaction_new (vs_options vs) level vs = Some (c0, vs')"
    and push: "push_input 0 f c0 = Some c"
    and ns: "\<not> enable_sublevel (vs_options vs)"
  shows "c_options c = vs_options vs" "c_level c = level"
    "c_max_grand_parent_overlap_bytes c = MaxGrandParentOverlapBytes (vs_options vs)"
    "c_inputs c = [[f], []]" "vs_options vs' = vs_options vs"
proof -
  note shape = Compaction_new_shape [OF nw ns]
  note frame = push_input_frame [OF push]
  show "c_options c = vs_options vs" "c_level c = level"
    "c_max_grand_parent_overlap_bytes c = MaxGrandParentOverlapBytes (vs_options vs)"
    "c_inputs c = [[f], []]"
    using shape frame by simp_all
  from shape(6) obtain a where "Version_Ref vs a = Some vs'" by blast
  then show "vs_options vs' = vs_options vs" by (rule Version_Ref_frame(2))
qed

lemma planned_shape:
  assumes "PickCompaction sub allow vs = Some (Some c, vs') \<or>
           CompactRange level begin end' vs = Some (Some c, vs')"
    and ns: "\<not> enable_sublevel (vs_options vs)"
  shows "c_options c = vs_options vs \<and> length (c_inputs c) = 2 \<and>
         c_max_grand_parent_overlap_bytes c = MaxGrandParentOverlapBytes (vs_options vs)"
  using assms(1)
proof
  assume "PickCompaction sub allow vs = Some (Some c, vs')"
  then consider
    (size) cur l c0 vs0 where "PickCompaction_size sub vs cur = Some (l, c0, vs0)"
      "PickCompaction_inputs l c0 vs0 = Some (c, vs')"
  | (seek) cur l c0 vs0 where "PickCompaction_seek vs cur = Some (l, c0, vs0)"
      "PickCompaction_inputs l c0 vs0 = Some (c, vs')"
    by (auto simp: PickCompaction_def Let_def split: Option.bind_splits if_splits)
  then show ?thesis
  proof cases
    case size
    from size(1) ns obtain c1 f where
      "Compaction_new (vs_options vs) l vs = Some (c1, vs0)" "push_input 0 f c1 = Some c0"
      by (rule PickCompaction_size_result)
    from seeded_shape [OF this ns] PickCompaction_inputs_frame [OF size(2)] ns
    show ?thesis by simp
  next
    case seek
    from seek(1) obtain c1 f where
      "Compaction_new (vs_options vs) l vs = Some (c1, vs0)" "push_input 0 f c1 = Some c0"
      by (rule PickCompaction_seek_result)
    from seeded_shape [OF this ns] PickCompaction_inputs_frame [OF seek(2)] ns
    show ?thesis by simp
  qed
next
  assume run: "CompactRange level begin end' vs = Some (Some c, vs')"
  then obtain a cur where cur: "vs_current vs = Some a" "vget vs a = Some cur"
    by (auto simp: CompactRange_def split: Option.bind_splits)
  from run cur obtain inputs c0 vs0 c1 where
    nw: "Compaction_new (vs_options vs) level vs = Some (c0, vs0)"
    and st: "set_input 0 (if level > 0
                  then CompactRange_truncate (MaxFileSizeForLevel (vs_options vs) (nat level)) 0 inputs
                  else inputs) c0 = Some c1"
    and soi: "SetupOtherInputs c1 vs0 = Some (c, vs')"
    by (rule CompactRange_result)
  from Compaction_new_shape [OF nw ns] set_input_frame [OF st] SetupOtherInputs_frame [OF soi]
  show ?thesis by simp
qed

lemma spec_seed_first:
  "fs \<noteq> [] \<Longrightarrow>
   (case PickCompaction_first cp fs of Some f \<Rightarrow> f | None \<Rightarrow> fs ! 0) = spec_seed cp fs"
  by (simp add: spec_seed_def PickCompaction_first_find)

lemma PickCompaction_size_seed:
  assumes cur: "vs_current vs = Some a" "vget vs a = Some cur"
    and ns: "\<not> enable_sublevel (vs_options vs)"
    and level: "0 \<le> v_compaction_level cur" "nat (v_compaction_level cur) < length (v_files cur)"
      "length (v_files cur) = length (vs_compact_pointer vs)"
    and ne: "v_files cur ! nat (v_compaction_level cur) \<noteq> []"
  shows "\<exists>c0 vs0. PickCompaction_size sub vs cur = Some (v_compaction_level cur, c0, vs0) \<and>
           c_level c0 = v_compaction_level cur \<and>
           c_inputs c0 = [[spec_seed (vs_compact_pointer vs ! nat (v_compaction_level cur))
                             (v_files cur ! nat (v_compaction_level cur))], []]"
proof -
  let ?L = "v_compaction_level cur"
  from Compaction_new_total [OF cur ns] obtain c1 vs0 where
    nw: "Compaction_new (vs_options vs) ?L vs = Some (c1, vs0)" by blast
  note shape = Compaction_new_shape [OF nw ns]
  define c0 where "c0 = c1\<lparr>c_inputs := [[spec_seed (vs_compact_pointer vs ! nat ?L)
                             (v_files cur ! nat ?L)], []]\<rparr>"
  have push: "\<And>f. push_input 0 f c1 = Some (c1\<lparr>c_inputs := [[f], []]\<rparr>)"
    using shape(1) by (simp add: push_input_def)
  have "PickCompaction_size sub vs cur = Some (?L, c0, vs0)"
    using ns level ne nw push spec_seed_first [OF ne, of "vs_compact_pointer vs ! nat ?L"]
    by (auto simp: PickCompaction_size_def Let_def c0_def split: option.splits)
  moreover have "c_level c0 = ?L" using shape(3) by (simp add: c0_def)
  moreover have "c_inputs c0 = [[spec_seed (vs_compact_pointer vs ! nat ?L)
                             (v_files cur ! nat ?L)], []]"
    by (simp add: c0_def)
  ultimately show ?thesis by blast
qed

lemma PickCompaction_seek_seed:
  assumes cur: "vs_current vs = Some a" "vget vs a = Some cur"
    and ns: "\<not> enable_sublevel (vs_options vs)"
    and f: "v_file_to_compact cur = Some f"
  shows "\<exists>c0 vs0. PickCompaction_seek vs cur = Some (v_file_to_compact_level cur, c0, vs0) \<and>
           c_level c0 = v_file_to_compact_level cur \<and> c_inputs c0 = [[f], []]"
proof -
  let ?L = "v_file_to_compact_level cur"
  from Compaction_new_total [OF cur ns] obtain c1 vs0 where
    nw: "Compaction_new (vs_options vs) ?L vs = Some (c1, vs0)" by blast
  note shape = Compaction_new_shape [OF nw ns]
  have push: "push_input 0 f c1 = Some (c1\<lparr>c_inputs := [[f], []]\<rparr>)"
    using shape(1) by (simp add: push_input_def)
  have "PickCompaction_seek vs cur = Some (?L, c1\<lparr>c_inputs := [[f], []]\<rparr>, vs0)"
    using nw push f by (simp add: PickCompaction_seek_def Let_def)
  moreover have "c_level (c1\<lparr>c_inputs := [[f], []]\<rparr>) = ?L" using shape(3) by simp
  ultimately show ?thesis by auto
qed

lemma PickCompaction_planned:
  assumes "vs_current vs = Some a" "vget vs a = Some cur"
  shows "1 \<le> v_compaction_score cur \<Longrightarrow> PickCompaction_size sub vs cur = Some (l, c0, vs0) \<Longrightarrow>
         PickCompaction sub allow vs = planned (PickCompaction_inputs l c0 vs0)"
    and "\<not> 1 \<le> v_compaction_score cur \<Longrightarrow> allow \<Longrightarrow> v_file_to_compact cur \<noteq> None \<Longrightarrow>
         PickCompaction_seek vs cur = Some (l, c0, vs0) \<Longrightarrow>
         PickCompaction sub allow vs = planned (PickCompaction_inputs l c0 vs0)"
  using assms
  by (auto simp: PickCompaction_def Let_def planned_def split: Option.bind_splits)


text \<open>The seed stays among the inputs of its level.\<close>

lemma GOI_loop_sorted_level:
  "level \<noteq> 0 \<Longrightarrow>
   GetOverlappingInputs_loop level fs ub ue i inputs =
     (inputs @ filter (overlaps_range ub ue) (drop i fs), ub, ue)"
proof (induction level fs ub ue i inputs rule: GetOverlappingInputs_loop.induct)
  case (1 level fs ub ue i inputs)
  note step = GetOverlappingInputs_loop.simps [of level fs ub ue i inputs]
  show ?case
  proof (cases "i < length fs")
    case False
    then show ?thesis by (simp add: step)
  next
    case True
    have d: "drop i fs = fs ! i # drop (Suc i) fs" using True by (simp add: Cons_nth_drop_Suc)
    consider (a) "before_range ub (fs ! i)"
      | (b) "\<not> before_range ub (fs ! i)" "after_range ue (fs ! i)"
      | (c) "\<not> before_range ub (fs ! i)" "\<not> after_range ue (fs ! i)"
      by blast
    then show ?thesis
    proof cases
      case a
      from "1.IH"(1) [OF True a "1.prems"] a True show ?thesis
        by (simp add: step d overlaps_range_def)
    next
      case b
      from "1.IH"(2) [OF True b "1.prems"] b True show ?thesis
        by (simp add: step d overlaps_range_def)
    next
      case c
      have "\<not> (level = 0 \<and> extends_begin ub (fs ! i))" "\<not> (level = 0 \<and> extends_end ue (fs ! i))"
        using "1.prems" by simp_all
      from "1.IH"(5) [OF True c this "1.prems"] c True "1.prems" show ?thesis
        by (simp add: step d overlaps_range_def)
    qed
  qed
qed

lemma GetOverlappingInputs_contains:
  assumes run: "GetOverlappingInputs v level (Some lo) (Some hi) = Some res"
    and mem: "f \<in> set (v_files v ! level)"
    and ov: "overlaps_range (Some (user_key lo)) (Some (user_key hi)) f"
  shows "f \<in> set res"
proof (cases "level = 0")
  case False
  then show ?thesis using run mem ov
    by (auto simp: GetOverlappingInputs_def GOI_loop_sorted_level
        split: Option.bind_splits if_splits)
next
  case True
  obtain r lo' hi' where loop:
    "GetOverlappingInputs_loop 0 (v_files v ! 0) (Some (user_key lo)) (Some (user_key hi)) 0 []
       = (r, lo', hi')"
    by (metis prod_cases3)
  from GOI_loop_result [OF _ _ loop]
  have r: "r = filter (overlaps_range lo' hi') (v_files v ! 0)"
    "begin_le lo' (Some (user_key lo))" "end_le (Some (user_key hi)) hi'"
    by simp_all
  have "res = r" using run loop True
    by (auto simp: GetOverlappingInputs_def split: Option.bind_splits if_splits)
  moreover have "overlaps_range lo' hi' f" using overlaps_range_mono [OF r(2,3) ov] .
  ultimately show ?thesis using r(1) mem True by simp
qed

lemma icmp_Compare_user_key:
  "icmp_Compare a b < 0 \<Longrightarrow> user_key a \<le> user_key b"
  "\<not> icmp_Compare a b < 0 \<Longrightarrow> user_key b \<le> user_key a"
  "icmp_Compare a b > 0 \<Longrightarrow> user_key b \<le> user_key a"
  "\<not> icmp_Compare a b > 0 \<Longrightarrow> user_key a \<le> user_key b"
  by (auto simp: icmp_Compare_def ucmp_Compare_def Let_def split: if_splits)

lemma GetRange_fold_covers:
  "fold GetRange_step fs (s0, l0) = (s, l) \<Longrightarrow>
   user_key s \<le> user_key s0 \<and> user_key l0 \<le> user_key l \<and>
   (\<forall>f \<in> set fs. user_key s \<le> user_key (smallest f) \<and> user_key (largest f) \<le> user_key l)"
proof (induction fs arbitrary: s0 l0)
  case Nil
  then show ?case by simp
next
  case (Cons f fs)
  obtain s1 l1 where step: "GetRange_step f (s0, l0) = (s1, l1)" by (metis surj_pair)
  then have s1: "user_key s1 \<le> user_key s0" "user_key s1 \<le> user_key (smallest f)"
    and l1: "user_key l0 \<le> user_key l1" "user_key (largest f) \<le> user_key l1"
    using icmp_Compare_user_key [of "smallest f" s0] icmp_Compare_user_key [of "largest f" l0]
    by (auto simp: GetRange_step_def split: if_splits)
  from Cons.prems step have "fold GetRange_step fs (s1, l1) = (s, l)" by simp
  from Cons.IH [OF this] s1 l1 show ?case by auto
qed

lemma GetRange_covers:
  assumes "GetRange fs = Some r" "f \<in> set fs"
  shows "user_key (fst r) \<le> user_key (smallest f)" "user_key (largest f) \<le> user_key (snd r)"
proof -
  from assms(1) obtain g gs where fs: "fs = g # gs"
    and r: "fold GetRange_step gs (smallest g, largest g) = (fst r, snd r)"
    by (auto simp: GetRange_def split: list.splits)
  from GetRange_fold_covers [OF r] assms(2) fs
  show "user_key (fst r) \<le> user_key (smallest f)" "user_key (largest f) \<le> user_key (snd r)"
    by auto
qed

lemma covered_overlaps:
  assumes "key_ordered f" "lo \<le> user_key (smallest f)" "user_key (largest f) \<le> hi"
  shows "overlaps_range (Some lo) (Some hi) f"
  using assms
  by (auto simp: overlaps_range_def before_range_def after_range_def key_ordered_def
      ucmp_Compare_def)

lemma SetupOtherInputs_keeps:
  assumes run: "SetupOtherInputs c vs = Some (c', vs')"
    and cur: "vs_current vs = Some a" "vget vs a = Some cur"
    and len: "length (c_inputs c) = 2"
    and mem: "f \<in> set (c_inputs c ! 0)" "f \<in> set (v_files cur ! nat (c_level c))"
    and wf: "key_ordered f"
  shows "f \<in> set (c_inputs c' ! 0)"
proof -
  from run cur len obtain range0 in1 all_range p where
    r0: "GetRange (c_inputs c ! 0) = Some range0"
    and all: "GetRange2 (c_inputs c ! 0) in1 = Some all_range"
    and ex: "SetupOtherInputs_expand (vs_options vs) cur (nat (c_level c))
            (fst range0, snd range0, c_inputs c ! 0, in1, fst all_range, snd all_range) = Some p"
    and res: "c_inputs c' ! 0 = fst (snd (snd p))"
    by (auto simp: SetupOtherInputs_def Let_def set_input_def get_input_def
        split: Option.bind_splits if_splits prod.splits)
  obtain sm lg in0' in1' s l where p: "p = (sm, lg, in0', in1', s, l)"
    by (metis prod_cases6)
  from SetupOtherInputs_expand_cases [OF ex [unfolded p]]
  consider "in0' = c_inputs c ! 0"
    | "GetOverlappingInputs cur (nat (c_level c)) (Some (fst all_range)) (Some (snd all_range))
         = Some in0'"
    by blast
  then have "f \<in> set in0'"
  proof cases
    case 1
    then show ?thesis using mem(1) by simp
  next
    case 2
    have "f \<in> set (c_inputs c ! 0 @ in1)" using mem(1) by simp
    from GetRange_covers [OF all [unfolded GetRange2_def] this]
    have "overlaps_range (Some (user_key (fst all_range))) (Some (user_key (snd all_range))) f"
      using wf by (intro covered_overlaps)
    from GetOverlappingInputs_contains [OF 2 mem(2) this] show ?thesis .
  qed
  then show ?thesis using res p by simp
qed

lemma PickCompaction_inputs_keeps:
  assumes run: "PickCompaction_inputs level c vs = Some (c', vs')"
    and ns: "\<not> enable_sublevel (vs_options vs)"
    and cur: "vs_current vs = Some a" "vget vs a = Some cur"
    and c: "c_inputs c = [[f], []]" "c_level c = level"
    and mem: "f \<in> set (v_files cur ! nat level)"
    and wf: "key_ordered f"
  shows "f \<in> set (c_inputs c' ! 0)"
proof (cases "level = 0")
  case False
  then have "SetupOtherInputs c vs = Some (c', vs')"
    using run ns by (simp add: PickCompaction_inputs_def)
  from SetupOtherInputs_keeps [OF this cur] c mem wf show ?thesis by simp
next
  case True
  from run ns True cur c obtain all0 where
    goi: "GetOverlappingInputs cur 0 (Some (smallest f)) (Some (largest f)) = Some all0"
    and soi: "SetupOtherInputs (c\<lparr>c_inputs := [all0, []]\<rparr>) vs = Some (c', vs')"
    by (auto simp: PickCompaction_inputs_def get_input_def set_input_def GetRange_def
        split: Option.bind_splits if_splits)
  have "overlaps_range (Some (user_key (smallest f))) (Some (user_key (largest f))) f"
    using wf by (intro covered_overlaps) simp_all
  from GetOverlappingInputs_contains [OF goi _ this] mem True
  have "f \<in> set all0" by simp
  with SetupOtherInputs_keeps [OF soi cur] c mem wf show ?thesis by simp
qed

lemma spec_seed_mem: "fs \<noteq> [] \<Longrightarrow> spec_seed cp fs \<in> set fs"
  by (auto simp: spec_seed_def find_Some_iff split: option.splits)

lemma seeded_current:
  assumes nw: "Compaction_new (vs_options vs) level vs = Some (c0, vs0)"
    and ns: "\<not> enable_sublevel (vs_options vs)"
    and cur: "vs_current vs = Some a" "vget vs a = Some cur"
  obtains cur0 where "vs_current vs0 = Some a" "vget vs0 a = Some cur0"
    "v_files cur0 = v_files cur" "\<not> enable_sublevel (vs_options vs0)"
proof -
  from Compaction_new_shape(6) [OF nw ns] cur have ref: "Version_Ref vs a = Some vs0" by auto
  from Version_Ref_frame [OF ref] cur ns that show ?thesis by metis
qed

lemma PickCompaction_keeps_seed:
  assumes run: "PickCompaction sub allow vs = Some (Some c, vs')"
    and cur: "vs_current vs = Some a" "vget vs a = Some cur"
    and ns: "\<not> enable_sublevel (vs_options vs)"
  shows "1 \<le> v_compaction_score cur \<Longrightarrow>
         key_ordered (spec_seed (vs_compact_pointer vs ! nat (v_compaction_level cur))
                        (v_files cur ! nat (v_compaction_level cur))) \<Longrightarrow>
         spec_seed (vs_compact_pointer vs ! nat (v_compaction_level cur))
            (v_files cur ! nat (v_compaction_level cur)) \<in> set (c_inputs c ! 0)"
    and "\<not> 1 \<le> v_compaction_score cur \<Longrightarrow> v_file_to_compact cur = Some f \<Longrightarrow>
         f \<in> set (v_files cur ! nat (v_file_to_compact_level cur)) \<Longrightarrow> key_ordered f \<Longrightarrow>
         f \<in> set (c_inputs c ! 0)"
proof -
  let ?fs = "v_files cur ! nat (v_compaction_level cur)"
  let ?seed = "spec_seed (vs_compact_pointer vs ! nat (v_compaction_level cur)) ?fs"
  show "?seed \<in> set (c_inputs c ! 0)" if sz: "1 \<le> v_compaction_score cur" and wf: "key_ordered ?seed"
  proof -
    from run cur sz obtain l c0 vs0 where
      seeded: "PickCompaction_size sub vs cur = Some (l, c0, vs0)"
      and rest: "PickCompaction_inputs l c0 vs0 = Some (c, vs')"
      by (auto simp: PickCompaction_def Let_def split: Option.bind_splits if_splits)
    from seeded ns obtain c1 g where l: "l = v_compaction_level cur"
      and nw: "Compaction_new (vs_options vs) l vs = Some (c1, vs0)"
      and push: "push_input 0 g c1 = Some c0"
      and g: "PickCompaction_first (vs_compact_pointer vs ! nat l) (v_files cur ! nat l) = Some g \<or>
        PickCompaction_first (vs_compact_pointer vs ! nat l) (v_files cur ! nat l) = None \<and>
        v_files cur ! nat l \<noteq> [] \<and> g = v_files cur ! nat l ! 0"
      by (rule PickCompaction_size_result)
    have ne: "?fs \<noteq> []" using g l by (cases ?fs) auto
    have "g = ?seed" using g l spec_seed_first [OF ne, of "vs_compact_pointer vs ! nat l"]
      by auto
    then have c0: "c_inputs c0 = [[?seed], []]" "c_level c0 = l"
      using seeded_shape [OF nw push ns] by simp_all
    from nw ns cur obtain cur0 where cur0: "vs_current vs0 = Some a" "vget vs0 a = Some cur0"
      "v_files cur0 = v_files cur" "\<not> enable_sublevel (vs_options vs0)"
      by (rule seeded_current)
    have "?seed \<in> set (v_files cur0 ! nat l)" using spec_seed_mem [OF ne] l cur0(3) by simp
    from PickCompaction_inputs_keeps [OF rest cur0(4) cur0(1,2) c0 this wf] show ?thesis .
  qed
  show "f \<in> set (c_inputs c ! 0)" if sz: "\<not> 1 \<le> v_compaction_score cur"
    and f: "v_file_to_compact cur = Some f"
    and mem: "f \<in> set (v_files cur ! nat (v_file_to_compact_level cur))" and wf: "key_ordered f"
  proof -
    from run cur sz obtain l c0 vs0 where
      seeded: "PickCompaction_seek vs cur = Some (l, c0, vs0)"
      and rest: "PickCompaction_inputs l c0 vs0 = Some (c, vs')"
      by (auto simp: PickCompaction_def Let_def split: Option.bind_splits if_splits)
    from seeded obtain c1 g where l: "l = v_file_to_compact_level cur"
      and nw: "Compaction_new (vs_options vs) l vs = Some (c1, vs0)"
      and g: "v_file_to_compact cur = Some g" and push: "push_input 0 g c1 = Some c0"
      by (rule PickCompaction_seek_result)
    have c0: "c_inputs c0 = [[f], []]" "c_level c0 = l"
      using seeded_shape [OF nw push ns] g f by simp_all
    from nw ns cur obtain cur0 where cur0: "vs_current vs0 = Some a" "vget vs0 a = Some cur0"
      "v_files cur0 = v_files cur" "\<not> enable_sublevel (vs_options vs0)"
      by (rule seeded_current)
    have "f \<in> set (v_files cur0 ! nat l)" using mem l cur0(3) by simp
    from PickCompaction_inputs_keeps [OF rest cur0(4) cur0(1,2) c0 this wf] show ?thesis .
  qed
qed

text \<open>The planner returns where the assertions of the code hold.\<close>

lemma GetOverlappingInputs_total:
  "level < length (v_files v) \<Longrightarrow> \<exists>res. GetOverlappingInputs v level b e = Some res"
  by (simp add: GetOverlappingInputs_def)

lemma GetRange_total: "fs \<noteq> [] \<Longrightarrow> \<exists>r. GetRange fs = Some r"
  by (cases fs) (simp_all add: GetRange_def)

lemma SetupOtherInputs_expand_total:
  assumes "level + 1 < length (v_files cur)"
  shows "\<exists>p. SetupOtherInputs_expand options cur level (sm, lg, in0, in1, s, l) = Some p"
proof -
  obtain e0 where e0: "GetOverlappingInputs cur level (Some s) (Some l) = Some e0"
    using GetOverlappingInputs_total [of level cur] assms by fastforce
  show ?thesis
  proof (cases "in1 \<noteq> [] \<and> length e0 > length in0 \<and>
      TotalFileSize in1 + TotalFileSize e0 <s ExpandedCompactionByteSizeLimit options")
    case False
    then show ?thesis using e0 by (auto simp: SetupOtherInputs_expand_def Let_def)
  next
    case True
    then have "e0 \<noteq> []" by auto
    then obtain nr where nr: "GetRange e0 = Some nr" using GetRange_total by blast
    obtain e1 where e1: "GetOverlappingInputs cur (level + 1) (Some (fst nr)) (Some (snd nr)) = Some e1"
      using GetOverlappingInputs_total [of "level + 1" cur] assms by fastforce
    have "e0 @ e1 \<noteq> []" using \<open>e0 \<noteq> []\<close> by simp
    then obtain ar where ar: "GetRange2 e0 e1 = Some ar"
      using GetRange_total unfolding GetRange2_def by blast
    show ?thesis using True e0 nr e1 ar
      by (auto simp: SetupOtherInputs_expand_def Let_def)
  qed
qed

lemma SetupOtherInputs_total:
  assumes cur: "vs_current vs = Some a" "vget vs a = Some cur"
    and c: "c_inputs c = [in0, x]" "in0 \<noteq> []"
    and lev: "0 \<le> c_level c" "nat (c_level c) + 1 < length (v_files cur)"
      "length (v_files cur) = length (vs_compact_pointer vs)"
  shows "\<exists>c' vs'. SetupOtherInputs c vs = Some (c', vs')"
proof -
  let ?L = "nat (c_level c)"
  obtain r0 where r0: "GetRange in0 = Some r0" using GetRange_total [OF c(2)] by blast
  obtain in1 where in1: "GetOverlappingInputs cur (?L + 1) (Some (fst r0)) (Some (snd r0)) = Some in1"
    using GetOverlappingInputs_total [of "?L + 1" cur] lev(2) by fastforce
  have "in0 @ in1 \<noteq> []" using c(2) by simp
  then obtain ar where ar: "GetRange2 in0 in1 = Some ar"
    using GetRange_total unfolding GetRange2_def by blast
  obtain p where p: "SetupOtherInputs_expand (vs_options vs) cur ?L
            (fst r0, snd r0, in0, in1, fst ar, snd ar) = Some p"
    using SetupOtherInputs_expand_total [OF lev(2)] by blast
  obtain sm lg in0' in1' s l where pp: "p = (sm, lg, in0', in1', s, l)" by (metis prod_cases6)
  have gp: "?L + 2 < length (v_files cur) \<Longrightarrow>
      \<exists>g. GetOverlappingInputs cur (?L + 2) (Some s) (Some l) = Some g"
    using GetOverlappingInputs_total by blast
  show ?thesis
  proof (cases "?L + 2 < length (v_files cur)")
    case True
    with gp obtain g where "GetOverlappingInputs cur (?L + 2) (Some s) (Some l) = Some g" by blast
    then show ?thesis using cur c lev r0 in1 ar p pp True
      by (simp add: SetupOtherInputs_def Let_def get_input_def set_input_def)
  next
    case False
    then show ?thesis using cur c lev r0 in1 ar p pp
      by (simp add: SetupOtherInputs_def Let_def get_input_def set_input_def)
  qed
qed

lemma PickCompaction_inputs_total:
  assumes ns: "\<not> enable_sublevel (vs_options vs)"
    and cur: "vs_current vs = Some a" "vget vs a = Some cur"
    and c: "c_inputs c = [[f], []]" "c_level c = level"
    and lev: "0 \<le> level" "nat level + 1 < length (v_files cur)"
      "length (v_files cur) = length (vs_compact_pointer vs)"
    and l0: "level = 0 \<longrightarrow> f \<in> set (v_files cur ! 0) \<and> key_ordered f"
  shows "\<exists>c' vs'. PickCompaction_inputs level c vs = Some (c', vs')"
proof (cases "level = 0")
  case False
  have "\<exists>c' vs'. SetupOtherInputs c vs = Some (c', vs')"
    using SetupOtherInputs_total [OF cur c(1)] c(2) lev by simp
  then show ?thesis using False ns by (simp add: PickCompaction_inputs_def)
next
  case True
  obtain all0 where goi: "GetOverlappingInputs cur 0 (Some (smallest f)) (Some (largest f)) = Some all0"
    using GetOverlappingInputs_total [of 0 cur] lev(2) by fastforce
  have "overlaps_range (Some (user_key (smallest f))) (Some (user_key (largest f))) f"
    using l0 True by (intro covered_overlaps) simp_all
  from GetOverlappingInputs_contains [OF goi _ this] l0 True
  have mem: "f \<in> set all0" by simp
  then have ne: "all0 \<noteq> []" by auto
  have "\<exists>c' vs'. SetupOtherInputs (c\<lparr>c_inputs := [all0, []]\<rparr>) vs = Some (c', vs')"
    using SetupOtherInputs_total [OF cur, of "c\<lparr>c_inputs := [all0, []]\<rparr>" all0 "[]"] ne c(2) lev
    by simp
  then show ?thesis using True ns cur c goi ne
    by (simp add: PickCompaction_inputs_def get_input_def set_input_def GetRange_def)
qed

lemma Compaction_new_level:
  "Compaction_new options level vs = Some (c, vs') \<Longrightarrow> c_level c = level"
  by (auto simp: Compaction_new_def split: Option.bind_splits if_splits)

lemma Compaction_new_ref:
  assumes "Compaction_new options level vs = Some (c, vs')"
  shows "\<exists>a. vs_current vs = Some a \<and> Version_Ref vs a = Some vs'"
  using assms by (auto simp: Compaction_new_def split: Option.bind_splits if_splits)

lemma Compaction_new_frame:
  assumes "Compaction_new options level vs = Some (c, vs')"
  shows "vs_options vs' = vs_options vs" "vs_compact_pointer vs' = vs_compact_pointer vs"
    "vs_current vs' = vs_current vs"
proof -
  from Compaction_new_ref [OF assms] obtain a where "Version_Ref vs a = Some vs'" by blast
  from Version_Ref_frame(1-3) [OF this]
  show "vs_options vs' = vs_options vs" "vs_compact_pointer vs' = vs_compact_pointer vs"
    "vs_current vs' = vs_current vs" by simp_all
qed

lemma PickCompaction_size_level:
  assumes "PickCompaction_size sub vs cur = Some (l, c, vs')"
  shows "l = v_compaction_level cur" "c_level c = l" "vs_options vs' = vs_options vs"
  using assms
  by (auto simp: PickCompaction_size_def Let_def push_input_def
      dest: Compaction_new_level Compaction_new_frame(1)
      split: Option.bind_splits if_splits option.splits)

lemma PickCompaction_seek_level:
  assumes "PickCompaction_seek vs cur = Some (l, c, vs')"
  shows "l = v_file_to_compact_level cur" "c_level c = l" "vs_options vs' = vs_options vs"
  using assms
  by (auto simp: PickCompaction_seek_def Let_def push_input_def
      dest: Compaction_new_level Compaction_new_frame(1)
      split: Option.bind_splits if_splits option.splits)

lemma PickCompaction_inputs_level:
  assumes "PickCompaction_inputs l c vs = Some (c', vs')"
  shows "c_level c' = c_level c"
proof (cases "enable_sublevel (vs_options vs)")
  case True
  then show ?thesis using assms by (simp add: PickCompaction_inputs_def)
next
  case False
  from PickCompaction_inputs_frame(2) [OF assms False] show ?thesis .
qed

lemma PickCompaction_level:
  assumes run: "PickCompaction sub allow vs = Some (Some c, vs')"
    and cur: "vs_current vs = Some a" "vget vs a = Some cur"
  shows "c_level c = (if 1 \<le> v_compaction_score cur then v_compaction_level cur
                      else v_file_to_compact_level cur)"
proof -
  from run cur consider
    (size) l c0 vs0 where "1 \<le> v_compaction_score cur"
      "PickCompaction_size sub vs cur = Some (l, c0, vs0)"
      "PickCompaction_inputs l c0 vs0 = Some (c, vs')"
  | (seek) l c0 vs0 where "\<not> 1 \<le> v_compaction_score cur"
      "PickCompaction_seek vs cur = Some (l, c0, vs0)"
      "PickCompaction_inputs l c0 vs0 = Some (c, vs')"
    by (auto simp: PickCompaction_def Let_def split: Option.bind_splits if_splits)
  then show ?thesis
  proof cases
    case size
    from PickCompaction_size_level(1,2) [OF size(2)] PickCompaction_inputs_level [OF size(3)] size(1)
    show ?thesis by simp
  next
    case seek
    from PickCompaction_seek_level(1,2) [OF seek(2)] PickCompaction_inputs_level [OF seek(3)] seek(1)
    show ?thesis by simp
  qed
qed

lemma PickCompaction_size_run:
  assumes cur: "vs_current vs = Some a" "vget vs a = Some cur"
    and ns: "\<not> enable_sublevel (vs_options vs)"
    and sz: "1 \<le> v_compaction_score cur"
    and lev: "0 \<le> v_compaction_level cur"
      "nat (v_compaction_level cur) + 1 < length (v_files cur)"
      "length (v_files cur) = length (vs_compact_pointer vs)"
    and ne: "v_files cur ! nat (v_compaction_level cur) \<noteq> []"
    and l0: "v_compaction_level cur = 0 \<longrightarrow>
             key_ordered (spec_seed (vs_compact_pointer vs ! nat (v_compaction_level cur))
                            (v_files cur ! nat (v_compaction_level cur)))"
  shows "\<exists>c0 vs0 c vs'.
           PickCompaction_size sub vs cur = Some (v_compaction_level cur, c0, vs0) \<and>
           c_level c0 = v_compaction_level cur \<and>
           c_inputs c0 = [[spec_seed (vs_compact_pointer vs ! nat (v_compaction_level cur))
                             (v_files cur ! nat (v_compaction_level cur))], []] \<and>
           PickCompaction_inputs (v_compaction_level cur) c0 vs0 = Some (c, vs') \<and>
           PickCompaction sub allow vs = Some (Some c, vs') \<and>
           c_level c = v_compaction_level cur \<and>
           (key_ordered (spec_seed (vs_compact_pointer vs ! nat (v_compaction_level cur))
                           (v_files cur ! nat (v_compaction_level cur))) \<longrightarrow>
            spec_seed (vs_compact_pointer vs ! nat (v_compaction_level cur))
               (v_files cur ! nat (v_compaction_level cur)) \<in> set (c_inputs c ! 0))"
proof -
  let ?L = "v_compaction_level cur"
  let ?seed = "spec_seed (vs_compact_pointer vs ! nat ?L) (v_files cur ! nat ?L)"
  have lt: "nat ?L < length (v_files cur)" using lev(2) by simp
  from PickCompaction_size_seed [OF cur ns lev(1) lt lev(3) ne, of sub]
  obtain c0 vs0 where seeded: "PickCompaction_size sub vs cur = Some (?L, c0, vs0)"
    and c0: "c_inputs c0 = [[?seed], []]" "c_level c0 = ?L"
    by blast
  from seeded ns obtain c1 g where
    nw: "Compaction_new (vs_options vs) ?L vs = Some (c1, vs0)"
    by (rule PickCompaction_size_result)
  from nw ns cur obtain cur0 where cur0: "vs_current vs0 = Some a" "vget vs0 a = Some cur0"
    "v_files cur0 = v_files cur" "\<not> enable_sublevel (vs_options vs0)"
    by (rule seeded_current)
  have cp0: "vs_compact_pointer vs0 = vs_compact_pointer vs"
    by (rule Compaction_new_frame(2) [OF nw])
  have mem: "?seed \<in> set (v_files cur ! nat ?L)" by (rule spec_seed_mem [OF ne])
  have l0': "?L = 0 \<longrightarrow> ?seed \<in> set (v_files cur0 ! 0) \<and> key_ordered ?seed"
    using l0 mem cur0(3) by auto
  have lev': "nat ?L + 1 < length (v_files cur0)"
    "length (v_files cur0) = length (vs_compact_pointer vs0)"
    using lev cur0(3) cp0 by simp_all
  have "\<exists>c vs'. PickCompaction_inputs ?L c0 vs0 = Some (c, vs')"
    by (rule PickCompaction_inputs_total [OF cur0(4) cur0(1,2) c0 lev(1) lev' l0'])
  then obtain c vs' where rest: "PickCompaction_inputs ?L c0 vs0 = Some (c, vs')" by blast
  have run: "PickCompaction sub allow vs = Some (Some c, vs')"
    using PickCompaction_planned(1) [OF cur sz seeded, of allow] rest by (simp add: planned_def)
  have lv: "c_level c = ?L" using PickCompaction_inputs_level [OF rest] c0(2) by simp
  have "key_ordered ?seed \<longrightarrow> ?seed \<in> set (c_inputs c ! 0)"
    using PickCompaction_keeps_seed(1) [OF run cur ns sz] by blast
  then show ?thesis using seeded c0 rest run lv by blast
qed

lemma PickCompaction_seek_run:
  assumes cur: "vs_current vs = Some a" "vget vs a = Some cur"
    and ns: "\<not> enable_sublevel (vs_options vs)"
    and sz: "v_compaction_score cur < 1" and allow: "allow"
    and f: "v_file_to_compact cur = Some f"
    and lev: "0 \<le> v_file_to_compact_level cur"
      "nat (v_file_to_compact_level cur) + 1 < length (v_files cur)"
      "length (v_files cur) = length (vs_compact_pointer vs)"
    and l0: "v_file_to_compact_level cur = 0 \<longrightarrow>
             f \<in> set (v_files cur ! 0) \<and> key_ordered f"
  shows "\<exists>c0 vs0 c vs'.
           PickCompaction_seek vs cur = Some (v_file_to_compact_level cur, c0, vs0) \<and>
           c_level c0 = v_file_to_compact_level cur \<and> c_inputs c0 = [[f], []] \<and>
           PickCompaction_inputs (v_file_to_compact_level cur) c0 vs0 = Some (c, vs') \<and>
           PickCompaction sub allow vs = Some (Some c, vs') \<and>
           c_level c = v_file_to_compact_level cur \<and>
           (f \<in> set (v_files cur ! nat (v_file_to_compact_level cur)) \<and> key_ordered f \<longrightarrow>
            f \<in> set (c_inputs c ! 0))"
proof -
  let ?L = "v_file_to_compact_level cur"
  have nsz: "\<not> 1 \<le> v_compaction_score cur" using sz by simp
  from PickCompaction_seek_seed [OF cur ns f]
  obtain c0 vs0 where seeded: "PickCompaction_seek vs cur = Some (?L, c0, vs0)"
    and c0: "c_inputs c0 = [[f], []]" "c_level c0 = ?L"
    by blast
  from seeded obtain c1 g where
    nw: "Compaction_new (vs_options vs) ?L vs = Some (c1, vs0)"
    by (rule PickCompaction_seek_result)
  from nw ns cur obtain cur0 where cur0: "vs_current vs0 = Some a" "vget vs0 a = Some cur0"
    "v_files cur0 = v_files cur" "\<not> enable_sublevel (vs_options vs0)"
    by (rule seeded_current)
  have cp0: "vs_compact_pointer vs0 = vs_compact_pointer vs"
    by (rule Compaction_new_frame(2) [OF nw])
  have l0': "?L = 0 \<longrightarrow> f \<in> set (v_files cur0 ! 0) \<and> key_ordered f"
    using l0 cur0(3) by auto
  have lev': "nat ?L + 1 < length (v_files cur0)"
    "length (v_files cur0) = length (vs_compact_pointer vs0)"
    using lev cur0(3) cp0 by simp_all
  have "\<exists>c vs'. PickCompaction_inputs ?L c0 vs0 = Some (c, vs')"
    by (rule PickCompaction_inputs_total [OF cur0(4) cur0(1,2) c0 lev(1) lev' l0'])
  then obtain c vs' where rest: "PickCompaction_inputs ?L c0 vs0 = Some (c, vs')" by blast
  have fs: "v_file_to_compact cur \<noteq> None" using f by simp
  have run: "PickCompaction sub allow vs = Some (Some c, vs')"
    using PickCompaction_planned(2) [OF cur nsz allow fs seeded, of sub] rest
    by (simp add: planned_def)
  have lv: "c_level c = ?L" using PickCompaction_inputs_level [OF rest] c0(2) by simp
  have "f \<in> set (v_files cur ! nat ?L) \<and> key_ordered f \<longrightarrow> f \<in> set (c_inputs c ! 0)"
    using PickCompaction_keeps_seed(2) [OF run cur ns nsz f] by blast
  then show ?thesis using seeded c0 rest run lv by blast
qed

lemma PickCompaction_sublevel_size:
  assumes cur: "vs_current vs = Some a" "vget vs a = Some cur"
    and sl: "enable_sublevel (vs_options vs)"
    and sz: "1 \<le> v_compaction_score cur"
    and lev: "0 \<le> v_compaction_level cur"
      "length (v_input_pool cur) = length (v_output_pool cur)"
      "nat (v_compaction_level cur) < length (v_input_pool cur)"
    and nw: "Compaction_new (vs_options vs) (v_compaction_level cur) vs = Some (c0, vs0)"
  shows "PickCompaction sub allow vs =
           (case sub vs0 (v_compaction_level cur) c0 of
              None \<Rightarrow> None
            | Some r \<Rightarrow> Some (Some (c0\<lparr>c_start_key := fst r, c_inputs := snd r\<rparr>), vs0))"
proof -
  have opt: "enable_sublevel (vs_options vs0)" using Compaction_new_frame(1) [OF nw] sl by simp
  show ?thesis
    using cur sl sz lev nw opt
    by (auto simp: PickCompaction_def PickCompaction_size_def PickCompaction_inputs_def Let_def
        split: option.splits)
qed

lemma PickCompaction_sublevel_seek:
  assumes cur: "vs_current vs = Some a" "vget vs a = Some cur"
    and sl: "enable_sublevel (vs_options vs)"
    and sz: "v_compaction_score cur < 1" and allow: "allow"
    and f: "v_file_to_compact cur = Some f"
    and nw: "Compaction_new (vs_options vs) (v_file_to_compact_level cur) vs = Some (c0, vs0)"
    and rows: "c_inputs c0 \<noteq> []"
  shows "PickCompaction sub allow vs =
           Some (Some (c0\<lparr>c_inputs := (c_inputs c0)[0 := c_inputs c0 ! 0 @ [f]]\<rparr>), vs0)"
proof -
  have opt: "enable_sublevel (vs_options vs0)" using Compaction_new_frame(1) [OF nw] sl by simp
  show ?thesis
    using cur sl sz allow f nw rows opt
    by (auto simp: PickCompaction_def PickCompaction_seek_def PickCompaction_inputs_def Let_def
        push_input_def split: option.splits)
qed

text \<open>Running the planner on the example tree.\<close>

lemma replicate_2: "replicate 2 x = [x, x]"
  by (simp add: numeral_2_eq_2)

lemmas run_planner =
  PickCompaction_def PickCompaction_size_def PickCompaction_seek_def PickCompaction_inputs_def
  CompactRange_def SetupOtherInputs_def SetupOtherInputs_expand_def Compaction_new_def
  push_input_def set_input_def get_input_def GetRange_def GetRange2_def GetRange_step_def
  GetOverlappingInputs_def GetOverlappingInputs_loop.simps
  before_range_def after_range_def extends_begin_def extends_end_def
  MaxFileSizeForLevel_def MaxGrandParentOverlapBytes_def ExpandedCompactionByteSizeLimit_def
  TotalFileSize_def SetCompactPointer_def VersionEdit_new_def
  Version_Ref_def vget_def vput_def
  icmp_Compare_def ucmp_Compare_def example_file_def example_options_def
  example_options_no_stop_def example_tree_def
  example_tree_version_def example_tree_planned_def example_plan_def
  example_l0_def example_l1a_def example_l1b_def example_l2_def
  Let_def word_sless_alt word_sle_eq replicate_2

lemma PickCompaction_example:
  "PickCompaction no_sublevel_inputs True (example_tree example_options) =
   Some (Some (example_plan example_options 1 [example_l1b] [example_l2] [] (InternalKey 8 4 1)),
         example_tree_planned example_options 1 (InternalKey 8 4 1))"
  by (simp add: run_planner)

lemma CompactRange_level1_example:
  "CompactRange 1 None None (example_tree example_options) =
   Some (Some (example_plan example_options 1 [example_l1a] [example_l2] [] (InternalKey 4 6 1)),
         example_tree_planned example_options 1 (InternalKey 4 6 1))"
  by (simp add: run_planner)

lemma CompactRange_level0_example:
  "CompactRange 0 None None (example_tree example_options) =
   Some (Some (example_plan example_options 0 [example_l0] [] [example_l2] (InternalKey 2 8 1)),
         example_tree_planned example_options 0 (InternalKey 2 8 1))"
  by (simp add: run_planner)

lemma example_tree_current:
  "vs_current (example_tree options) = Some 0"
  "vget (example_tree options) 0 = Some example_tree_version"
  "vs_options (example_tree options) = options"
  by (simp_all add: example_tree_def vget_def)

lemma pool_at_Some: "0 \<le> i \<Longrightarrow> nat i < length p \<Longrightarrow> pool_at p i = Some (p ! nat i)"
  by (simp add: pool_at_def)

lemma Compaction_new_sublevel_total:
  assumes cur: "vs_current vs = Some a" "vget vs a = Some cur"
    and sl: "enable_sublevel options"
    and lev: "0 \<le> level" "nat level < length (v_output_pool cur)"
      "nat level + 1 < length (v_input_pool cur)"
      "0 \<le> snd (v_output_pool cur ! nat level)"
  shows "\<exists>c vs'. Compaction_new options level vs = Some (c, vs') \<and>
           c_inputs c = replicate (nat (snd (v_output_pool cur ! nat level))) []"
proof -
  have o: "pool_at (v_output_pool cur) level = Some (v_output_pool cur ! nat level)"
    using lev by (simp add: pool_at_def)
  have i: "pool_at (v_input_pool cur) (level + 1) = Some (v_input_pool cur ! nat (level + 1))"
    using lev by (simp add: pool_at_def nat_add_distrib)
  show ?thesis using cur sl lev o i
    by (simp add: Compaction_new_def Version_Ref_def)
qed


lemma Compaction_new_sublevel_example:
  "Compaction_new (vs_options example_sublevel_tree) 0 example_sublevel_tree =
   Some (example_sublevel_plan,
         example_sublevel_tree\<lparr>vs_versions := [Some (example_sublevel_version\<lparr>v_refs := 2\<rparr>)]\<rparr>)"
  by (simp add: Compaction_new_def pool_at_def example_sublevel_tree_def example_tree_def
      example_sublevel_version_def example_options_sublevel_def example_options_def
      example_sublevel_plan_def Version_Ref_def vget_def vput_def MaxFileSizeForLevel_def)


lemma example_vset_current:
  "vs_current example_vset = Some 0"
  "vget example_vset 0 = Some ((Version_new example_options)\<lparr>v_refs := 1\<rparr>)"
  by (simp_all add: example_vset_def vget_def)

lemma example_seek_tree_current:
  "vs_current example_seek_tree = Some 0"
  "vget example_seek_tree 0 =
     Some (example_tree_version\<lparr>v_compaction_score := 1 / 2,
             v_file_to_compact := Some example_l1a, v_file_to_compact_level := 1\<rparr>)"
  by (simp_all add: example_seek_tree_def example_tree_def vget_def)

lemma example_sublevel_tree_current:
  "vs_current example_sublevel_tree = Some 0"
  "vget example_sublevel_tree 0 = Some example_sublevel_version"
  by (simp_all add: example_sublevel_tree_def example_tree_def vget_def)


text \<open>
  C4. \<open>PickCompaction\<close> follows this priority, in both modes. If the compaction score of
  the current version is at least 1 it plans a size compaction of level
  \<open>compaction_level_\<close>; otherwise, if seek compactions are allowed and \<open>file_to_compact_\<close> is
  set, a seek compaction of level \<open>file_to_compact_level_\<close> seeded with that file; otherwise
  it returns \<open>NULL\<close>, and it returns \<open>NULL\<close> in no other case. In non-sublevel mode, where
  the assertions of the code hold (the level and the next one exist, there is a compact
  pointer for every level, the level of a size compaction has files, and a seed of level
  0 is a file of that level with its keys in order), a compaction is returned: the size
  compaction is seeded with the first file of the level whose largest key is greater than
  \<open>compact_pointer_[level]\<close>, or with the first file of the level if there is none, the rest
  of the planning is applied to the seeded compaction, and the seed (if its keys are in
  order) is among the inputs of the level in the result. In sublevel mode, where the
  pools of the current version have the rows that the constructor reads, the result is
  the new compaction with the inputs that \<open>SetupSublevelInputs\<close> chooses (size
  compaction; nothing if it aborts) or with the file pushed on row 0 (seek compaction).
\<close>

theorem PickCompaction_priority:
  assumes cur: "vs_current vs = Some a" "vget vs a = Some cur"
  shows
    "(1 \<le> v_compaction_score cur \<and> \<not> enable_sublevel (vs_options vs) \<and>
      0 \<le> v_compaction_level cur \<and>
      nat (v_compaction_level cur) + 1 < length (v_files cur) \<and>
      length (v_files cur) = length (vs_compact_pointer vs) \<and>
      v_files cur ! nat (v_compaction_level cur) \<noteq> [] \<and>
      (v_compaction_level cur = 0 \<longrightarrow>
         key_ordered (spec_seed (vs_compact_pointer vs ! nat (v_compaction_level cur))
                        (v_files cur ! nat (v_compaction_level cur)))) \<longrightarrow>
      (\<exists>c0 vs0 c vs'.
         PickCompaction_size sub vs cur = Some (v_compaction_level cur, c0, vs0) \<and>
         c_level c0 = v_compaction_level cur \<and>
         c_inputs c0 = [[spec_seed (vs_compact_pointer vs ! nat (v_compaction_level cur))
                           (v_files cur ! nat (v_compaction_level cur))], []] \<and>
         PickCompaction_inputs (v_compaction_level cur) c0 vs0 = Some (c, vs') \<and>
         PickCompaction sub allow vs = Some (Some c, vs') \<and>
         c_level c = v_compaction_level cur \<and>
         (key_ordered (spec_seed (vs_compact_pointer vs ! nat (v_compaction_level cur))
                         (v_files cur ! nat (v_compaction_level cur))) \<longrightarrow>
          spec_seed (vs_compact_pointer vs ! nat (v_compaction_level cur))
             (v_files cur ! nat (v_compaction_level cur)) \<in> set (c_inputs c ! 0)))) \<and>
     (v_compaction_score cur < 1 \<and> allow \<and> v_file_to_compact cur = Some f \<and>
      \<not> enable_sublevel (vs_options vs) \<and>
      0 \<le> v_file_to_compact_level cur \<and>
      nat (v_file_to_compact_level cur) + 1 < length (v_files cur) \<and>
      length (v_files cur) = length (vs_compact_pointer vs) \<and>
      (v_file_to_compact_level cur = 0 \<longrightarrow> f \<in> set (v_files cur ! 0) \<and> key_ordered f) \<longrightarrow>
      (\<exists>c0 vs0 c vs'.
         PickCompaction_seek vs cur = Some (v_file_to_compact_level cur, c0, vs0) \<and>
         c_level c0 = v_file_to_compact_level cur \<and> c_inputs c0 = [[f], []] \<and>
         PickCompaction_inputs (v_file_to_compact_level cur) c0 vs0 = Some (c, vs') \<and>
         PickCompaction sub allow vs = Some (Some c, vs') \<and>
         c_level c = v_file_to_compact_level cur \<and>
         (f \<in> set (v_files cur ! nat (v_file_to_compact_level cur)) \<and> key_ordered f \<longrightarrow>
          f \<in> set (c_inputs c ! 0)))) \<and>
     (1 \<le> v_compaction_score cur \<and> enable_sublevel (vs_options vs) \<and>
      0 \<le> v_compaction_level cur \<and>
      length (v_input_pool cur) = length (v_output_pool cur) \<and>
      nat (v_compaction_level cur) + 1 < length (v_input_pool cur) \<and>
      0 \<le> snd (v_output_pool cur ! nat (v_compaction_level cur)) \<longrightarrow>
      (\<exists>c0 vs0.
         Compaction_new (vs_options vs) (v_compaction_level cur) vs = Some (c0, vs0) \<and>
         c_level c0 = v_compaction_level cur \<and>
         PickCompaction sub allow vs =
           (case sub vs0 (v_compaction_level cur) c0 of
              None \<Rightarrow> None
            | Some r \<Rightarrow> Some (Some (c0\<lparr>c_start_key := fst r, c_inputs := snd r\<rparr>), vs0)))) \<and>
     (v_compaction_score cur < 1 \<and> allow \<and> v_file_to_compact cur = Some f \<and>
      enable_sublevel (vs_options vs) \<and>
      0 \<le> v_file_to_compact_level cur \<and>
      nat (v_file_to_compact_level cur) < length (v_output_pool cur) \<and>
      nat (v_file_to_compact_level cur) + 1 < length (v_input_pool cur) \<and>
      0 < snd (v_output_pool cur ! nat (v_file_to_compact_level cur)) \<longrightarrow>
      (\<exists>c0 vs0.
         Compaction_new (vs_options vs) (v_file_to_compact_level cur) vs = Some (c0, vs0) \<and>
         c_level c0 = v_file_to_compact_level cur \<and>
         PickCompaction sub allow vs =
           Some (Some (c0\<lparr>c_inputs := (c_inputs c0)[0 := c_inputs c0 ! 0 @ [f]]\<rparr>), vs0))) \<and>
     (v_compaction_score cur < 1 \<and> (\<not> allow \<or> v_file_to_compact cur = None) \<longrightarrow>
      PickCompaction sub allow vs = Some (None, vs)) \<and>
     (PickCompaction sub allow vs = Some (None, vs') \<longrightarrow>
      v_compaction_score cur < 1 \<and> (\<not> allow \<or> v_file_to_compact cur = None)) \<and>
     (PickCompaction sub allow vs = Some (Some c, vs') \<longrightarrow>
      c_level c = (if 1 \<le> v_compaction_score cur then v_compaction_level cur
                   else v_file_to_compact_level cur))"
proof (intro conjI impI)
  assume "1 \<le> v_compaction_score cur \<and> \<not> enable_sublevel (vs_options vs) \<and>
      0 \<le> v_compaction_level cur \<and>
      nat (v_compaction_level cur) + 1 < length (v_files cur) \<and>
      length (v_files cur) = length (vs_compact_pointer vs) \<and>
      v_files cur ! nat (v_compaction_level cur) \<noteq> [] \<and>
      (v_compaction_level cur = 0 \<longrightarrow>
         key_ordered (spec_seed (vs_compact_pointer vs ! nat (v_compaction_level cur))
                        (v_files cur ! nat (v_compaction_level cur))))"
  then show "\<exists>c0 vs0 c vs'.
         PickCompaction_size sub vs cur = Some (v_compaction_level cur, c0, vs0) \<and>
         c_level c0 = v_compaction_level cur \<and>
         c_inputs c0 = [[spec_seed (vs_compact_pointer vs ! nat (v_compaction_level cur))
                           (v_files cur ! nat (v_compaction_level cur))], []] \<and>
         PickCompaction_inputs (v_compaction_level cur) c0 vs0 = Some (c, vs') \<and>
         PickCompaction sub allow vs = Some (Some c, vs') \<and>
         c_level c = v_compaction_level cur \<and>
         (key_ordered (spec_seed (vs_compact_pointer vs ! nat (v_compaction_level cur))
                         (v_files cur ! nat (v_compaction_level cur))) \<longrightarrow>
          spec_seed (vs_compact_pointer vs ! nat (v_compaction_level cur))
             (v_files cur ! nat (v_compaction_level cur)) \<in> set (c_inputs c ! 0))"
    by (intro PickCompaction_size_run [OF cur]) simp_all
next
  assume "v_compaction_score cur < 1 \<and> allow \<and> v_file_to_compact cur = Some f \<and>
      \<not> enable_sublevel (vs_options vs) \<and>
      0 \<le> v_file_to_compact_level cur \<and>
      nat (v_file_to_compact_level cur) + 1 < length (v_files cur) \<and>
      length (v_files cur) = length (vs_compact_pointer vs) \<and>
      (v_file_to_compact_level cur = 0 \<longrightarrow> f \<in> set (v_files cur ! 0) \<and> key_ordered f)"
  then show "\<exists>c0 vs0 c vs'.
         PickCompaction_seek vs cur = Some (v_file_to_compact_level cur, c0, vs0) \<and>
         c_level c0 = v_file_to_compact_level cur \<and> c_inputs c0 = [[f], []] \<and>
         PickCompaction_inputs (v_file_to_compact_level cur) c0 vs0 = Some (c, vs') \<and>
         PickCompaction sub allow vs = Some (Some c, vs') \<and>
         c_level c = v_file_to_compact_level cur \<and>
         (f \<in> set (v_files cur ! nat (v_file_to_compact_level cur)) \<and> key_ordered f \<longrightarrow>
          f \<in> set (c_inputs c ! 0))"
    by (intro PickCompaction_seek_run [OF cur]) simp_all
next
  assume a: "1 \<le> v_compaction_score cur \<and> enable_sublevel (vs_options vs) \<and>
      0 \<le> v_compaction_level cur \<and>
      length (v_input_pool cur) = length (v_output_pool cur) \<and>
      nat (v_compaction_level cur) + 1 < length (v_input_pool cur) \<and>
      0 \<le> snd (v_output_pool cur ! nat (v_compaction_level cur))"
  then obtain c0 vs0 where
    nw: "Compaction_new (vs_options vs) (v_compaction_level cur) vs = Some (c0, vs0)"
    using Compaction_new_sublevel_total [OF cur, of "vs_options vs" "v_compaction_level cur"]
    by auto
  have "PickCompaction sub allow vs =
           (case sub vs0 (v_compaction_level cur) c0 of
              None \<Rightarrow> None
            | Some r \<Rightarrow> Some (Some (c0\<lparr>c_start_key := fst r, c_inputs := snd r\<rparr>), vs0))"
    using a by (intro PickCompaction_sublevel_size [OF cur _ _ _ _ _ nw]) simp_all
  then show "\<exists>c0 vs0.
         Compaction_new (vs_options vs) (v_compaction_level cur) vs = Some (c0, vs0) \<and>
         c_level c0 = v_compaction_level cur \<and>
         PickCompaction sub allow vs =
           (case sub vs0 (v_compaction_level cur) c0 of
              None \<Rightarrow> None
            | Some r \<Rightarrow> Some (Some (c0\<lparr>c_start_key := fst r, c_inputs := snd r\<rparr>), vs0))"
    using nw Compaction_new_level [OF nw] by blast
next
  assume a: "v_compaction_score cur < 1 \<and> allow \<and> v_file_to_compact cur = Some f \<and>
      enable_sublevel (vs_options vs) \<and>
      0 \<le> v_file_to_compact_level cur \<and>
      nat (v_file_to_compact_level cur) < length (v_output_pool cur) \<and>
      nat (v_file_to_compact_level cur) + 1 < length (v_input_pool cur) \<and>
      0 < snd (v_output_pool cur ! nat (v_file_to_compact_level cur))"
  then obtain c0 vs0 where
    nw: "Compaction_new (vs_options vs) (v_file_to_compact_level cur) vs = Some (c0, vs0)"
    and rows: "c_inputs c0 =
       replicate (nat (snd (v_output_pool cur ! nat (v_file_to_compact_level cur)))) []"
    using Compaction_new_sublevel_total [OF cur, of "vs_options vs" "v_file_to_compact_level cur"]
    by auto
  have ne: "c_inputs c0 \<noteq> []" using rows a by auto
  have "PickCompaction sub allow vs =
           Some (Some (c0\<lparr>c_inputs := (c_inputs c0)[0 := c_inputs c0 ! 0 @ [f]]\<rparr>), vs0)"
    using a by (intro PickCompaction_sublevel_seek [OF cur _ _ _ _ nw ne]) simp_all
  then show "\<exists>c0 vs0.
         Compaction_new (vs_options vs) (v_file_to_compact_level cur) vs = Some (c0, vs0) \<and>
         c_level c0 = v_file_to_compact_level cur \<and>
         PickCompaction sub allow vs =
           Some (Some (c0\<lparr>c_inputs := (c_inputs c0)[0 := c_inputs c0 ! 0 @ [f]]\<rparr>), vs0)"
    using nw Compaction_new_level [OF nw] by blast
next
  assume "v_compaction_score cur < 1 \<and> (\<not> allow \<or> v_file_to_compact cur = None)"
  then show "PickCompaction sub allow vs = Some (None, vs)"
    using cur by (auto simp: PickCompaction_def Let_def)
next
  assume "PickCompaction sub allow vs = Some (None, vs')"
  then show "v_compaction_score cur < 1" "\<not> allow \<or> v_file_to_compact cur = None"
    using cur by (auto simp: PickCompaction_def Let_def split: Option.bind_splits if_splits)
next
  assume "PickCompaction sub allow vs = Some (Some c, vs')"
  then show "c_level c = (if 1 \<le> v_compaction_score cur then v_compaction_level cur
                   else v_file_to_compact_level cur)"
    by (rule PickCompaction_level [OF _ cur])
qed


theorem PickCompaction_priority_witness:
  "(\<exists>c0 vs0 c vs'.
      PickCompaction_size no_sublevel_inputs (example_tree example_options) example_tree_version
        = Some (1, c0, vs0) \<and>
      c_level c0 = 1 \<and> c_inputs c0 = [[example_l1b], []] \<and>
      PickCompaction_inputs 1 c0 vs0 = Some (c, vs') \<and>
      PickCompaction no_sublevel_inputs True (example_tree example_options) = Some (Some c, vs') \<and>
      c_level c = 1 \<and> example_l1b \<in> set (c_inputs c ! 0)) \<and>
   (\<exists>c0 vs0 c vs'.
      PickCompaction_seek example_seek_tree
        (example_tree_version\<lparr>v_compaction_score := 1 / 2,
           v_file_to_compact := Some example_l1a, v_file_to_compact_level := 1\<rparr>)
        = Some (1, c0, vs0) \<and>
      c_level c0 = 1 \<and> c_inputs c0 = [[example_l1a], []] \<and>
      PickCompaction_inputs 1 c0 vs0 = Some (c, vs') \<and>
      PickCompaction no_sublevel_inputs True example_seek_tree = Some (Some c, vs') \<and>
      c_level c = 1 \<and> example_l1a \<in> set (c_inputs c ! 0)) \<and>
   PickCompaction example_sublevel_inputs True example_sublevel_tree =
     Some (Some (example_sublevel_plan\<lparr>c_start_key := None, c_inputs := [[example_l0]]\<rparr>),
           example_sublevel_tree\<lparr>vs_versions := [Some (example_sublevel_version\<lparr>v_refs := 2\<rparr>)]\<rparr>) \<and>
   PickCompaction no_sublevel_inputs True example_vset = Some (None, example_vset) \<and>
   c_level (example_plan example_options 1 [example_l1b] [example_l2] [] (InternalKey 8 4 1)) = 1"
proof -
  have seed: "spec_seed (Some (InternalKey 4 6 1)) [example_l1a, example_l1b] = example_l1b"
    by (simp add: spec_seed_def example_l1a_def example_l1b_def example_file_def
        icmp_Compare_def ucmp_Compare_def)
  have lv: "v_compaction_level example_tree_version = 1"
    "vs_compact_pointer (example_tree example_options) ! nat 1 = Some (InternalKey 4 6 1)"
    "v_files example_tree_version ! nat 1 = [example_l1a, example_l1b]"
    by (simp_all add: example_tree_version_def example_tree_def)
  have wfb: "key_ordered example_l1b"
    by (simp add: key_ordered_def example_l1b_def example_file_def)
  have wfa: "key_ordered example_l1a"
    by (simp add: key_ordered_def example_l1a_def example_file_def)

  note size = PickCompaction_priority [OF example_tree_current(1,2),
      where options1 = example_options and sub = no_sublevel_inputs and allow = True
        and c = "example_plan example_options 1 [example_l1b] [example_l2] [] (InternalKey 8 4 1)"
        and vs' = "example_tree_planned example_options 1 (InternalKey 8 4 1)"]
  have pre1: "1 \<le> v_compaction_score example_tree_version \<and>
      \<not> enable_sublevel (vs_options (example_tree example_options)) \<and>
      0 \<le> v_compaction_level example_tree_version \<and>
      nat (v_compaction_level example_tree_version) + 1 < length (v_files example_tree_version) \<and>
      length (v_files example_tree_version) =
        length (vs_compact_pointer (example_tree example_options)) \<and>
      v_files example_tree_version ! nat (v_compaction_level example_tree_version) \<noteq> [] \<and>
      (v_compaction_level example_tree_version = 0 \<longrightarrow>
         key_ordered (spec_seed (vs_compact_pointer (example_tree example_options) !
                                   nat (v_compaction_level example_tree_version))
                        (v_files example_tree_version !
                           nat (v_compaction_level example_tree_version))))"
    by (simp add: example_tree_version_def example_tree_def example_options_def)
  note r1 = size [THEN conjunct1, THEN mp, OF pre1, unfolded lv seed]
  from r1 obtain c0 vs0 c vs' where
    "PickCompaction_size no_sublevel_inputs (example_tree example_options) example_tree_version
        = Some (1, c0, vs0)"
    "c_level c0 = 1" "c_inputs c0 = [[example_l1b], []]"
    "PickCompaction_inputs 1 c0 vs0 = Some (c, vs')"
    "PickCompaction no_sublevel_inputs True (example_tree example_options) = Some (Some c, vs')"
    "c_level c = 1" "key_ordered example_l1b \<longrightarrow> example_l1b \<in> set (c_inputs c ! 0)"
    by (elim exE conjE)
  then have w1: "\<exists>c0 vs0 c vs'.
      PickCompaction_size no_sublevel_inputs (example_tree example_options) example_tree_version
        = Some (1, c0, vs0) \<and>
      c_level c0 = 1 \<and> c_inputs c0 = [[example_l1b], []] \<and>
      PickCompaction_inputs 1 c0 vs0 = Some (c, vs') \<and>
      PickCompaction no_sublevel_inputs True (example_tree example_options) = Some (Some c, vs') \<and>
      c_level c = 1 \<and> example_l1b \<in> set (c_inputs c ! 0)"
    using wfb by (intro exI [of _ c0] exI [of _ vs0] exI [of _ c] exI [of _ vs'] conjI) simp_all

  have score: "1 \<le> v_compaction_score example_tree_version"
    by (simp add: example_tree_version_def)
  have w5: "c_level (example_plan example_options 1 [example_l1b] [example_l2] []
                (InternalKey 8 4 1)) = 1"
    using size [THEN conjunct2, THEN conjunct2, THEN conjunct2, THEN conjunct2, THEN conjunct2,
          THEN conjunct2, THEN mp, OF PickCompaction_example] score lv(1) by simp

  let ?sv = "example_tree_version\<lparr>v_compaction_score := 1 / 2,
             v_file_to_compact := Some example_l1a, v_file_to_compact_level := 1\<rparr>"
  note seek = PickCompaction_priority [OF example_seek_tree_current,
      where sub = no_sublevel_inputs and allow = True and f = example_l1a]
  have pre2: "v_compaction_score ?sv < 1 \<and> True \<and> v_file_to_compact ?sv = Some example_l1a \<and>
      \<not> enable_sublevel (vs_options example_seek_tree) \<and>
      0 \<le> v_file_to_compact_level ?sv \<and>
      nat (v_file_to_compact_level ?sv) + 1 < length (v_files ?sv) \<and>
      length (v_files ?sv) = length (vs_compact_pointer example_seek_tree) \<and>
      (v_file_to_compact_level ?sv = 0 \<longrightarrow>
         example_l1a \<in> set (v_files ?sv ! 0) \<and> key_ordered example_l1a)"
    by (simp add: example_tree_version_def example_seek_tree_def example_tree_def
        example_options_def)
  have lv2: "v_file_to_compact_level ?sv = 1" "v_files ?sv ! nat 1 = [example_l1a, example_l1b]"
    by (simp_all add: example_tree_version_def)
  note r2 = seek [THEN conjunct2, THEN conjunct1, THEN mp, OF pre2, unfolded lv2]
  from r2 obtain c0 vs0 c vs' where
    "PickCompaction_seek example_seek_tree ?sv = Some (1, c0, vs0)"
    "c_level c0 = 1" "c_inputs c0 = [[example_l1a], []]"
    "PickCompaction_inputs 1 c0 vs0 = Some (c, vs')"
    "PickCompaction no_sublevel_inputs True example_seek_tree = Some (Some c, vs')"
    "c_level c = 1"
    "example_l1a \<in> set [example_l1a, example_l1b] \<and> key_ordered example_l1a \<longrightarrow>
       example_l1a \<in> set (c_inputs c ! 0)"
    by (elim exE conjE)
  then have w2: "\<exists>c0 vs0 c vs'.
      PickCompaction_seek example_seek_tree ?sv = Some (1, c0, vs0) \<and>
      c_level c0 = 1 \<and> c_inputs c0 = [[example_l1a], []] \<and>
      PickCompaction_inputs 1 c0 vs0 = Some (c, vs') \<and>
      PickCompaction no_sublevel_inputs True example_seek_tree = Some (Some c, vs') \<and>
      c_level c = 1 \<and> example_l1a \<in> set (c_inputs c ! 0)"
    using wfa by (intro exI [of _ c0] exI [of _ vs0] exI [of _ c] exI [of _ vs'] conjI) simp_all

  note subl = PickCompaction_priority [OF example_sublevel_tree_current,
      where sub = example_sublevel_inputs and allow = True]
  have lv3: "v_compaction_level example_sublevel_version = 0"
    by (simp add: example_sublevel_version_def)
  have pre3: "1 \<le> v_compaction_score example_sublevel_version \<and>
      enable_sublevel (vs_options example_sublevel_tree) \<and>
      0 \<le> v_compaction_level example_sublevel_version \<and>
      length (v_input_pool example_sublevel_version) =
        length (v_output_pool example_sublevel_version) \<and>
      nat (v_compaction_level example_sublevel_version) + 1 <
        length (v_input_pool example_sublevel_version) \<and>
      0 \<le> snd (v_output_pool example_sublevel_version !
                 nat (v_compaction_level example_sublevel_version))"
    by (simp add: example_sublevel_version_def example_sublevel_tree_def example_tree_def
        example_options_sublevel_def)
  note r3 = subl [THEN conjunct2, THEN conjunct2, THEN conjunct1, THEN mp, OF pre3,
      unfolded lv3]
  from r3 obtain c0 vs0 where
    nw: "Compaction_new (vs_options example_sublevel_tree) 0 example_sublevel_tree = Some (c0, vs0)"
    and run: "PickCompaction example_sublevel_inputs True example_sublevel_tree =
           (case example_sublevel_inputs vs0 0 c0 of
              None \<Rightarrow> None
            | Some r \<Rightarrow> Some (Some (c0\<lparr>c_start_key := fst r, c_inputs := snd r\<rparr>), vs0))"
    by (elim exE conjE)
  have w3: "PickCompaction example_sublevel_inputs True example_sublevel_tree =
     Some (Some (example_sublevel_plan\<lparr>c_start_key := None, c_inputs := [[example_l0]]\<rparr>),
           example_sublevel_tree\<lparr>vs_versions := [Some (example_sublevel_version\<lparr>v_refs := 2\<rparr>)]\<rparr>)"
    using run nw Compaction_new_sublevel_example by (simp add: example_sublevel_inputs_def)

  note null = PickCompaction_priority [OF example_vset_current,
      where sub = no_sublevel_inputs and allow = True]
  have pre4: "v_compaction_score ((Version_new example_options)\<lparr>v_refs := 1\<rparr>) < 1 \<and>
      (\<not> True \<or> v_file_to_compact ((Version_new example_options)\<lparr>v_refs := 1\<rparr>) = None)"
    by (simp add: Version_new_def)
  note w4 = null [THEN conjunct2, THEN conjunct2, THEN conjunct2, THEN conjunct2,
      THEN conjunct1, THEN mp, OF pre4]
  show ?thesis using w1 w2 w3 w4 w5 by (intro conjI)
qed

text \<open>
  C7 (as amended). For a level of at least 1, \<open>CompactRange\<close> seeds the compaction with the
  shortest non-empty prefix of the overlapping files whose bytes reach
  \<open>MaxFileSizeForLevel\<close> (with all of them if no prefix does): every shorter non-empty
  prefix is below the cap, the list itself need not be. The inputs of the level in the
  compaction that is returned are this list, or a longer list whose bytes, together with
  those of the files first chosen in the next level, are below
  \<open>ExpandedCompactionByteSizeLimit\<close>.
\<close>

theorem CompactRange_capped_prefix:
  assumes run: "CompactRange level begin end' vs = Some (Some c, vs')"
    and cur: "vs_current vs = Some a" "vget vs a = Some cur"
    and level: "1 \<le> level"
  shows "\<exists>inputs out range0 in1.
           GetOverlappingInputs cur (nat level) begin end' = Some inputs \<and>
           out = CompactRange_truncate (MaxFileSizeForLevel (vs_options vs) (nat level)) 0 inputs \<and>
           capped_prefix (MaxFileSizeForLevel (vs_options vs) (nat level)) inputs out \<and>
           out \<noteq> [] \<and>
           GetRange out = Some range0 \<and>
           GetOverlappingInputs cur (nat level + 1) (Some (fst range0)) (Some (snd range0))
             = Some in1 \<and>
           (c_inputs c ! 0 = out \<or>
            length out < length (c_inputs c ! 0) \<and>
            TotalFileSize in1 + TotalFileSize (c_inputs c ! 0)
              <s ExpandedCompactionByteSizeLimit (vs_options vs))"
proof -
  from run cur obtain inputs c0 vs0 c1 where
    ns: "\<not> enable_sublevel (vs_options vs)"
    and goi: "GetOverlappingInputs cur (nat level) begin end' = Some inputs" and ne: "inputs \<noteq> []"
    and nw: "Compaction_new (vs_options vs) level vs = Some (c0, vs0)"
    and st: "set_input 0 (if level > 0
                  then CompactRange_truncate (MaxFileSizeForLevel (vs_options vs) (nat level)) 0 inputs
                  else inputs) c0 = Some c1"
    and soi: "SetupOtherInputs c1 vs0 = Some (c, vs')"
    by (rule CompactRange_result)
  define out where "out = CompactRange_truncate (MaxFileSizeForLevel (vs_options vs) (nat level)) 0 inputs"
  have cap: "capped_prefix (MaxFileSizeForLevel (vs_options vs) (nat level)) inputs out"
    unfolding out_def by (rule CompactRange_truncate_capped)
  then have one: "out \<noteq> []" using ne by (simp add: capped_prefix_def)
  have set': "set_input 0 out c0 = Some c1" using st level by (simp add: out_def)
  note shape = Compaction_new_shape [OF nw ns]
  have c1: "c_inputs c1 = [out, []]" "c_options c1 = vs_options vs" "c_level c1 = level"
    using set_input_frame [OF set'] shape by simp_all
  from shape(6) cur obtain ref: "Version_Ref vs a = Some vs0" by auto
  from Version_Ref_frame [OF ref] cur obtain cur0 where
    cur0: "vs_current vs0 = Some a" "vget vs0 a = Some cur0" "v_files cur0 = v_files cur"
    by metis
  have goi_eq: "\<And>l b e. GetOverlappingInputs cur0 l b e = GetOverlappingInputs cur l b e"
    by (simp add: GetOverlappingInputs_def cur0(3))
  have opt0: "vs_options vs0 = vs_options vs" by (rule Version_Ref_frame(2) [OF ref])
  from SetupOtherInputs_inputs [OF soi cur0(1,2)] c1
  obtain range0 in1 where
    "GetRange out = Some range0"
    "GetOverlappingInputs cur (nat level + 1) (Some (fst range0)) (Some (snd range0)) = Some in1"
    "c_inputs c ! 0 = out \<or>
            length out < length (c_inputs c ! 0) \<and>
            TotalFileSize in1 + TotalFileSize (c_inputs c ! 0)
              <s ExpandedCompactionByteSizeLimit (vs_options vs)"
    by (auto simp: goi_eq opt0)
  then show ?thesis using goi cap one out_def by blast
qed


theorem CompactRange_capped_prefix_witness:
  "\<exists>inputs out range0 in1.
     GetOverlappingInputs example_tree_version (nat 1) None None = Some inputs \<and>
     out = CompactRange_truncate
             (MaxFileSizeForLevel (vs_options (example_tree example_options)) (nat 1)) 0 inputs \<and>
     capped_prefix (MaxFileSizeForLevel (vs_options (example_tree example_options)) (nat 1))
       inputs out \<and>
     out \<noteq> [] \<and>
     GetRange out = Some range0 \<and>
     GetOverlappingInputs example_tree_version (nat 1 + 1) (Some (fst range0)) (Some (snd range0))
       = Some in1 \<and>
     (c_inputs (example_plan example_options 1 [example_l1a] [example_l2] []
                  (InternalKey 4 6 1)) ! 0 = out \<or>
      length out < length (c_inputs (example_plan example_options 1 [example_l1a] [example_l2] []
                                       (InternalKey 4 6 1)) ! 0) \<and>
      TotalFileSize in1 +
        TotalFileSize (c_inputs (example_plan example_options 1 [example_l1a] [example_l2] []
                                   (InternalKey 4 6 1)) ! 0)
        <s ExpandedCompactionByteSizeLimit (vs_options (example_tree example_options)))"
  by (rule CompactRange_capped_prefix
      [OF CompactRange_level1_example example_tree_current(1,2)]) simp

text \<open>
  C7 as stated fails: the first file of level 1 alone has 3000 bytes, the cap is 1000
  bytes, and the compaction of level 1 has that file as its input.
\<close>

theorem CompactRange_cap_counterexample:
  "CompactRange 1 None None (example_tree example_options) =
   Some (Some (example_plan example_options 1 [example_l1a] [example_l2] [] (InternalKey 4 6 1)),
         example_tree_planned example_options 1 (InternalKey 4 6 1)) \<and>
   TotalFileSize
     (c_inputs (example_plan example_options 1 [example_l1a] [example_l2] []
                  (InternalKey 4 6 1)) ! 0) = 3000 \<and>
   MaxFileSizeForLevel example_options 1 = 1000"
  by (simp add: run_planner)

lemma CompactRange_no_stop_example:
  "CompactRange 0 None None (example_tree example_options_no_stop) =
   Some (Some (example_plan example_options_no_stop 0 [example_l0] [] [example_l2]
                 (InternalKey 2 8 1)),
         example_tree_planned example_options_no_stop 0 (InternalKey 2 8 1))"
  by (simp add: run_planner)

text \<open>
  C6 (as amended). In non-sublevel mode a planned compaction is a trivial move if and
  only if it has exactly one input file at the source level, no input file at the next
  level, and, when the option \<open>enable_should_stop_before\<close> is set, the sum of the sizes of
  its grandparent files is at most \<open>MaxGrandParentOverlapBytes\<close>; when the option is not set
  the grandparent files are not looked at. The sum is the one the code computes (64 bits,
  signed, wrapping); it is the total number of bytes of the grandparent files whenever
  that total is below \<open>2^63\<close>.
\<close>

theorem IsTrivialMove_planned:
  assumes "PickCompaction sub allow vs = Some (Some c, vs') \<or>
           CompactRange level begin end' vs = Some (Some c, vs')"
    and "\<not> enable_sublevel (vs_options vs)"
  shows "IsTrivialMove c =
           Some (length (c_inputs c ! 0) = 1 \<and> length (c_inputs c ! 1) = 0 \<and>
                 (enable_should_stop_before (vs_options vs) \<longrightarrow>
                  TotalFileSize (c_grandparents c)
                    \<le>s MaxGrandParentOverlapBytes (vs_options vs))) \<and>
         (sum_list (map (\<lambda>f. unat (file_size f)) (c_grandparents c)) < 2 ^ 63 \<longrightarrow>
          IsTrivialMove c =
           Some (length (c_inputs c ! 0) = 1 \<and> length (c_inputs c ! 1) = 0 \<and>
                 (enable_should_stop_before (vs_options vs) \<longrightarrow>
                  int (sum_list (map (\<lambda>f. unat (file_size f)) (c_grandparents c)))
                    \<le> sint (MaxGrandParentOverlapBytes (vs_options vs)))))"
proof -
  from planned_shape [OF assms(1,2)]
  have shape: "c_options c = vs_options vs" "length (c_inputs c) = 2"
    "c_max_grand_parent_overlap_bytes c = MaxGrandParentOverlapBytes (vs_options vs)"
    by simp_all
  have machine: "IsTrivialMove c =
           Some (length (c_inputs c ! 0) = 1 \<and> length (c_inputs c ! 1) = 0 \<and>
                 (enable_should_stop_before (vs_options vs) \<longrightarrow>
                  TotalFileSize (c_grandparents c)
                    \<le>s MaxGrandParentOverlapBytes (vs_options vs)))"
    using assms(2) shape by (auto simp: IsTrivialMove_def num_input_files_def)
  have "IsTrivialMove c =
           Some (length (c_inputs c ! 0) = 1 \<and> length (c_inputs c ! 1) = 0 \<and>
                 (enable_should_stop_before (vs_options vs) \<longrightarrow>
                  int (sum_list (map (\<lambda>f. unat (file_size f)) (c_grandparents c)))
                    \<le> sint (MaxGrandParentOverlapBytes (vs_options vs))))"
    if small: "sum_list (map (\<lambda>f. unat (file_size f)) (c_grandparents c)) < 2 ^ 63"
    using machine TotalFileSize_sint [OF small] by (simp add: word_sle_eq)
  then show ?thesis using machine by blast
qed

theorem IsTrivialMove_planned_witness:
  "IsTrivialMove (example_plan example_options 0 [example_l0] [] [example_l2] (InternalKey 2 8 1))
   = Some False"
proof -
  have ns: "\<not> enable_sublevel (vs_options (example_tree example_options))"
    by (simp add: example_tree_def example_options_def)
  have small: "sum_list (map (\<lambda>f. unat (file_size f))
      (c_grandparents (example_plan example_options 0 [example_l0] [] [example_l2]
         (InternalKey 2 8 1)))) < 2 ^ 63"
    by (simp add: example_plan_def example_l2_def example_file_def)
  from IsTrivialMove_planned [OF disjI2 [OF CompactRange_level0_example] ns,
      THEN conjunct2, THEN mp, OF small]
  show ?thesis
    by (simp add: example_plan_def example_l2_def example_file_def example_tree_def
        example_options_def MaxGrandParentOverlapBytes_def)
qed

text \<open>
  C6 as stated fails: with \<open>enable_should_stop_before\<close> off, the compaction of level 0 of
  the example tree has one input file, no file of level 1 and 20000 bytes of grandparent
  files, over the 10000 bytes allowed, and it is a trivial move.
\<close>

theorem IsTrivialMove_counterexample:
  "CompactRange 0 None None (example_tree example_options_no_stop) =
   Some (Some (example_plan example_options_no_stop 0 [example_l0] [] [example_l2]
                 (InternalKey 2 8 1)),
         example_tree_planned example_options_no_stop 0 (InternalKey 2 8 1)) \<and>
   IsTrivialMove (example_plan example_options_no_stop 0 [example_l0] [] [example_l2]
                    (InternalKey 2 8 1)) = Some True \<and>
   \<not> enable_sublevel example_options_no_stop \<and>
   TotalFileSize (c_grandparents (example_plan example_options_no_stop 0 [example_l0] []
                    [example_l2] (InternalKey 2 8 1))) = 20000 \<and>
   c_max_grand_parent_overlap_bytes (example_plan example_options_no_stop 0 [example_l0] []
                    [example_l2] (InternalKey 2 8 1)) = 10000"
  by (simp add: run_planner IsTrivialMove_def num_input_files_def)

end
